theory Spec2Isabelle
  imports Complex_Main "HOL-Library.Extended_Nat" "HOL-Library.Sublist" "HOL-Library.Word"
begin

section \<open>Strings and the JavaScript built-ins the pipeline relies on\<close>

text \<open>
  A JavaScript string is a sequence of UTF-16 code units. The OCR normalizer only ever
  inspects code units individually (equality, membership in a character class of ASCII
  characters, whitespace and line terminators), and its texts are modelled as
  \<^typ>\<open>string\<close>, lists of 8-bit characters standing for the code units \<open>0x00..0xFF\<close> (ASCII
  and Latin-1). The text verifier lower-cases its strings, and lower-casing looks at the
  neighbours of a character and reaches beyond Latin-1: the strings of the verifier are
  lists of 16-bit code units, introduced with the verifier below. Numbers that the source
  computes as doubles are exact here: \<^typ>\<open>rat\<close> for matcher confidences, \<^typ>\<open>real\<close> for
  recognizer scores.
\<close>

text \<open>The class \<^verbatim>\<open>\s\<close> of a regular expression, and the characters removed by \<^verbatim>\<open>trim()\<close>:
  tab, line feed, vertical tab, form feed, carriage return, space and no-break space.\<close>

definition isWhitespace :: "char \<Rightarrow> bool" where
  "isWhitespace c \<longleftrightarrow>
     c = CHR 0x09 \<or> c = CHR 0x0A \<or> c = CHR 0x0B \<or> c = CHR 0x0C \<or> c = CHR 0x0D \<or>
     c = CHR 0x20 \<or> c = CHR 0xA0"

text \<open>The line terminators, which the regular-expression dot does not match.\<close>

definition isLineTerminator :: "char \<Rightarrow> bool" where
  "isLineTerminator c \<longleftrightarrow> c = CHR 0x0A \<or> c = CHR 0x0D"

text \<open>The class \<^verbatim>\<open>\d\<close>.\<close>

definition isDigit :: "char \<Rightarrow> bool" where
  "isDigit c \<longleftrightarrow> c \<in> set ''0123456789''"

text \<open>The canonicalisation behind the \<^verbatim>\<open>i\<close> flag of a regular expression without the
  \<^verbatim>\<open>u\<close> flag: a code unit is compared through its upper case, and a code unit of 128 or
  more is never identified with an ASCII one. Every pattern of the normalizer is ASCII, so
  only \<open>a..z\<close> are folded.\<close>

definition canonicalize :: "char \<Rightarrow> char" where
  "canonicalize c =
     (case map_of (zip ''abcdefghijklmnopqrstuvwxyz'' ''ABCDEFGHIJKLMNOPQRSTUVWXYZ'') c of
        Some u \<Rightarrow> u
      | None \<Rightarrow> c)"

text \<open>\<^verbatim>\<open>text.includes(searchValue)\<close>: the search value occurs as a contiguous substring.\<close>

fun str_includes :: "'a list \<Rightarrow> 'a list \<Rightarrow> bool" where
  "str_includes [] s = (s = [])"
| "str_includes (c # cs) s = (prefix s (c # cs) \<or> str_includes cs s)"

text \<open>\<^verbatim>\<open>words.slice(from, to)\<close> for \<open>0 \<le> from \<le> to\<close>.\<close>

definition slice :: "'a list \<Rightarrow> nat \<Rightarrow> nat \<Rightarrow> 'a list" where
  "slice xs from to = take (to - from) (drop from xs)"

text \<open>\<^verbatim>\<open>String.prototype.trim\<close>.\<close>

definition trim :: "string \<Rightarrow> string" where
  "trim s = rev (dropWhile isWhitespace (rev (dropWhile isWhitespace s)))"

section \<open>Text verifier\<close>

subsection \<open>Strings of the verifier\<close>

text \<open>A string is the list of its UTF-16 code units. \<open>utf16\<close> gives the code units of
  a literal written in ASCII or Latin-1, where a character is one code unit with the
  character's own number.\<close>

type_synonym code_unit = "16 word"

type_synonym js_string = "code_unit list"

definition utf16 :: "string \<Rightarrow> js_string" where
  "utf16 s = map of_char s"

text \<open>The class \<^verbatim>\<open>\s\<close> on code units: the white space and line terminator code points
  of the language, all of them single code units.\<close>

definition isWhiteSpaceUnit :: "code_unit \<Rightarrow> bool" where
  "isWhiteSpaceUnit c \<longleftrightarrow>
     c \<in> set [0x0009, 0x000A, 0x000B, 0x000C, 0x000D, 0x0020, 0x00A0, 0x1680,
              0x2028, 0x2029, 0x202F, 0x205F, 0x3000, 0xFEFF] \<or>
     (0x2000 \<le> c \<and> c \<le> 0x200A)"

text \<open>
  \<^verbatim>\<open>String.prototype.toLowerCase\<close> follows the Unicode default case conversion. That
  conversion maps each character to its lower case, with one rule that depends on the
  context: the Greek capital sigma \<open>U+03A3\<close> becomes the final small sigma \<open>U+03C2\<close> when a
  cased letter stands before it (case-ignorable characters in between skipped) and no
  cased letter stands after it (case-ignorable characters in between skipped), and the
  small sigma \<open>U+03C3\<close> otherwise.

  The tables are written out for the code units of ASCII, of Latin-1 and of the Greek
  letters \<open>U+0391..U+03A9\<close> and \<open>U+03B1..U+03C9\<close>: the capitals \<open>A..Z\<close>, the Latin-1
  capitals \<open>U+00C0..U+00DE\<close> (the multiplication sign \<open>U+00D7\<close> apart) and the Greek
  capitals move up by 32. On a string of these code units the model is the language's
  function; any other code unit is left as it is, and counts as neither cased nor
  case-ignorable.
\<close>

definition lower_unit :: "code_unit \<Rightarrow> code_unit" where
  "lower_unit c =
     (if (0x0041 \<le> c \<and> c \<le> 0x005A) \<or>
         (0x00C0 \<le> c \<and> c \<le> 0x00DE \<and> c \<noteq> 0x00D7) \<or>
         (0x0391 \<le> c \<and> c \<le> 0x03A9 \<and> c \<noteq> 0x03A2)
      then c + 32 else c)"

definition cased :: "code_unit \<Rightarrow> bool" where
  "cased c \<longleftrightarrow>
     (0x0041 \<le> c \<and> c \<le> 0x005A) \<or> (0x0061 \<le> c \<and> c \<le> 0x007A) \<or>
     c \<in> set [0x00AA, 0x00B5, 0x00BA] \<or>
     (0x00C0 \<le> c \<and> c \<le> 0x00FF \<and> c \<noteq> 0x00D7 \<and> c \<noteq> 0x00F7) \<or>
     (0x0391 \<le> c \<and> c \<le> 0x03A9 \<and> c \<noteq> 0x03A2) \<or>
     (0x03B1 \<le> c \<and> c \<le> 0x03C9)"

definition case_ignorable :: "code_unit \<Rightarrow> bool" where
  "case_ignorable c \<longleftrightarrow>
     c \<in> set [0x0027, 0x002E, 0x003A, 0x005E, 0x0060,
              0x00A8, 0x00AD, 0x00AF, 0x00B4, 0x00B7, 0x00B8]"

text \<open>\<open>left\<close> holds the code units in front of the sigma, the nearest first;
  \<open>right\<close> holds the code units behind it.\<close>

definition final_sigma :: "js_string \<Rightarrow> js_string \<Rightarrow> bool" where
  "final_sigma left right \<longleftrightarrow>
     (case dropWhile case_ignorable left of [] \<Rightarrow> False | b # _ \<Rightarrow> cased b) \<and>
     (case dropWhile case_ignorable right of [] \<Rightarrow> True | a # _ \<Rightarrow> \<not> cased a)"

fun lower_from :: "js_string \<Rightarrow> js_string \<Rightarrow> js_string" where
  "lower_from left [] = []"
| "lower_from left (c # cs) =
     (if c = 0x03A3 then (if final_sigma left cs then 0x03C2 else 0x03C3)
      else lower_unit c) # lower_from (c # left) cs"

definition toLowerCase :: "js_string \<Rightarrow> js_string" where
  "toLowerCase s = lower_from [] s"

text \<open>\<^verbatim>\<open>text.split(/\s+/)\<close>: the pieces between maximal runs of whitespace. A run at the
  start or at the end of the text leaves an empty piece there, and the empty text gives the
  one empty piece.\<close>

function split_ws :: "js_string \<Rightarrow> js_string list" where
  "split_ws s =
     (let w = takeWhile (\<lambda>c. \<not> isWhiteSpaceUnit c) s;
          r = dropWhile (\<lambda>c. \<not> isWhiteSpaceUnit c) s
      in if r = [] then [w] else w # split_ws (dropWhile isWhiteSpaceUnit r))"
  by pat_completeness auto
termination
proof (relation "measure length")
  fix s w r
  assume r: "r = dropWhile (\<lambda>c. \<not> isWhiteSpaceUnit c) s" and ne: "r \<noteq> []"
  from ne obtain c cs where rc: "r = c # cs" by (cases r) auto
  have "length (dropWhile isWhiteSpaceUnit r) \<le> length r"
    by (rule length_dropWhile_le)
  moreover have "isWhiteSpaceUnit c"
    using r rc dropWhile_eq_Cons_conv[of "\<lambda>c. \<not> isWhiteSpaceUnit c" s c cs] by simp
  then have "length (dropWhile isWhiteSpaceUnit r) \<le> length cs"
    using rc by (simp add: length_dropWhile_le)
  moreover have "length r \<le> length s"
    unfolding r by (rule length_dropWhile_le)
  ultimately show "(dropWhile isWhiteSpaceUnit r, s) \<in> measure length"
    using rc by simp
qed simp

text \<open>\<^verbatim>\<open>.join(' ')\<close>.\<close>

fun join_space :: "js_string list \<Rightarrow> js_string" where
  "join_space [] = []"
| "join_space [w] = w"
| "join_space (w # v # ws) = w @ 0x0020 # join_space (v # ws)"

subsection \<open>\<^verbatim>\<open>TextVerifier.levenshteinDistance\<close>\<close>

text \<open>
  The source fills a matrix of \<open>b.length + 1\<close> rows and \<open>a.length + 1\<close> columns in place:
  first column, first row, then every other cell row by row from its three neighbours.
  The matrix is a list of rows; \<open>set_cell\<close> is the assignment \<^verbatim>\<open>matrix[i][j] = v\<close>. Every
  index the loops use lies inside the matrix (lemma \<open>levenshteinDistance_lev_rec\<close> below
  rests on that).
\<close>

type_synonym matrix = "nat list list"

definition cell :: "matrix \<Rightarrow> nat \<Rightarrow> nat \<Rightarrow> nat" where
  "cell m i j = m ! i ! j"

definition set_cell :: "matrix \<Rightarrow> nat \<Rightarrow> nat \<Rightarrow> nat \<Rightarrow> matrix" where
  "set_cell m i j v = m[i := (m ! i)[j := v]]"

text \<open>The body of the inner loop, for row \<open>i\<close> and column \<open>j\<close>.\<close>

definition lev_step :: "'a list \<Rightarrow> 'a list \<Rightarrow> nat \<Rightarrow> nat \<Rightarrow> matrix \<Rightarrow> matrix" where
  "lev_step a b i j m =
     (let cost = (if b ! (i - 1) = a ! (j - 1) then 0 else 1)
      in set_cell m i j
           (min (cell m (i - 1) (j - 1) + cost)
                (min (cell m i (j - 1) + 1) (cell m (i - 1) j + 1))))"

definition levenshteinDistance :: "'a list \<Rightarrow> 'a list \<Rightarrow> nat" where
  "levenshteinDistance a b =
     (if length a = 0 then length b
      else if length b = 0 then length a
      else
        let matrix0 = replicate (length b + 1) (replicate (length a + 1) 0);
            matrix1 = fold (\<lambda>i m. set_cell m i 0 i) [0..<length b + 1] matrix0;
            matrix2 = fold (\<lambda>j m. set_cell m 0 j j) [0..<length a + 1] matrix1;
            matrix3 = fold (\<lambda>i. fold (lev_step a b i) [1..<length a + 1])
                        [1..<length b + 1] matrix2
        in cell matrix3 (length b) (length a))"

subsection \<open>\<^verbatim>\<open>TextVerifier.findBestMatch\<close>\<close>

text \<open>The running best candidate starts as \<^verbatim>\<open>{ distance: Infinity, word: null }\<close>; the
  returned object adds the confidence.\<close>

record best_match =
  distance :: enat
  word :: "js_string option"

record match = best_match +
  confidence :: rat

text \<open>One candidate word or phrase: it replaces the best candidate when it is strictly
  closer.\<close>

definition try_candidate :: "js_string \<Rightarrow> js_string \<Rightarrow> best_match \<Rightarrow> best_match" where
  "try_candidate searchValue candidate bestMatch =
     (let d = levenshteinDistance searchValue candidate
      in if enat d < distance bestMatch
         then \<lparr>distance = enat d, word = Some candidate\<rparr>
         else bestMatch)"

text \<open>One round of the outer loop, at word \<open>i\<close>: the single word, then the phrases of two
  and of three words (\<open>j = 1, 2\<close>) for as long as \<open>i + j\<close> stays inside the word list.\<close>

definition scan_word ::
  "js_string \<Rightarrow> js_string list \<Rightarrow> nat \<Rightarrow> best_match \<Rightarrow> best_match" where
  "scan_word searchValue words i bestMatch =
     fold (\<lambda>j. try_candidate searchValue (join_space (slice words i (i + j + 1))))
          (takeWhile (\<lambda>j. i + j < length words) [1..<3])
          (try_candidate searchValue (words ! i) bestMatch)"

definition maxLength :: "js_string \<Rightarrow> js_string option \<Rightarrow> nat" where
  "maxLength searchValue w =
     max (length searchValue) (case w of None \<Rightarrow> 0 | Some v \<Rightarrow> length v)"

text \<open>\<^verbatim>\<open>maxLength > 0 ? Math.max(0, 1 - (bestMatch.distance / maxLength)) : 0\<close>; with the
  distance still \<^verbatim>\<open>Infinity\<close> the difference is \<^verbatim>\<open>-Infinity\<close> and the maximum is 0.\<close>

definition to_confidence :: "enat \<Rightarrow> nat \<Rightarrow> rat" where
  "to_confidence d n =
     (if n > 0
      then (case d of enat k \<Rightarrow> max 0 (1 - of_nat k / of_nat n) | \<infinity> \<Rightarrow> 0)
      else 0)"

definition findBestMatch :: "js_string \<Rightarrow> js_string \<Rightarrow> match" where
  "findBestMatch searchValue text =
     (if str_includes text searchValue
      then \<lparr>distance = 0, word = Some searchValue, confidence = 1\<rparr>
      else
        let words = split_ws text;
            bestMatch = fold (scan_word searchValue words) [0..<length words]
                          \<lparr>distance = \<infinity>, word = None\<rparr>
        in \<lparr>distance = distance bestMatch, word = word bestMatch,
            confidence = to_confidence (distance bestMatch)
                           (maxLength searchValue (word bestMatch))\<rparr>)"

subsection \<open>\<^verbatim>\<open>TextVerifier.verifyText\<close>\<close>

text \<open>
  The fields object is the list \<open>fieldList\<close> of its entries in the order \<^verbatim>\<open>Object.entries\<close> lists them,
  each expected value a string. The method throws on an empty extracted text. Its progress
  callback and the pause between two fields do not reach the returned array and are left
  out. The threshold \<open>0.7\<close> is the exact fraction \<open>7/10\<close>.
\<close>

datatype error = NoTextExtracted | AllOcrAttemptsFailed

record verification_result =
  field :: js_string
  input :: js_string
  found :: bool
  result_confidence :: rat
  bestMatch :: "js_string option"

definition verify_entry ::
  "js_string \<Rightarrow> js_string \<times> js_string \<Rightarrow> verification_result" where
  "verify_entry text entry =
     (let fieldName = fst entry;
          fieldValue = snd entry;
          searchValue = toLowerCase fieldValue;
          m = findBestMatch searchValue text
      in \<lparr>field = fieldName, input = fieldValue, found = (confidence m > 7 / 10),
          result_confidence = confidence m, bestMatch = word m\<rparr>)"

definition verifyText ::
  "js_string \<Rightarrow> (js_string \<times> js_string) list \<Rightarrow> error + verification_result list" where
  "verifyText extractedText fieldList =
     (if extractedText = [] then Inl NoTextExtracted
      else
        let text = toLowerCase extractedText;
            fieldEntries = filter (\<lambda>(_, value). value \<noteq> []) fieldList
        in Inr (fold (\<lambda>entry results. results @ [verify_entry text entry]) fieldEntries []))"

section \<open>OCR processor\<close>

subsection \<open>Global regular-expression replacement\<close>

text \<open>
  \<^verbatim>\<open>str.replace(/re/g, replacement)\<close> scans the string from the left. At each position the
  expression is tried; on a match the replacement is emitted and the scan resumes behind
  the match, otherwise the character is copied and the scan moves on by one. None of the
  expressions of the normalizer looks behind or is anchored, so a match attempt depends
  on the rest of the string only: a \<open>matcher\<close> maps that rest to the replacement text
  (group references already filled in) and the length of the match, or to \<open>None\<close>.
  After an empty match the scan copies one character before it tries again.
\<close>

type_synonym matcher = "string \<Rightarrow> (string \<times> nat) option"

function replace_all :: "matcher \<Rightarrow> string \<Rightarrow> string" where
  "replace_all m [] = (case m [] of None \<Rightarrow> [] | Some (rep, n) \<Rightarrow> rep)"
| "replace_all m (c # cs) =
     (case m (c # cs) of
        None \<Rightarrow> c # replace_all m cs
      | Some (rep, n) \<Rightarrow>
          if n = 0 then rep @ c # replace_all m cs
          else rep @ replace_all m (drop n (c # cs)))"
  by pat_completeness auto
termination
  by (relation "measure (\<lambda>(m, s). length s)") auto

text \<open>A character class is a predicate on characters, and a pattern that is a plain
  sequence of classes matches when the string starts with one character of each.\<close>

type_synonym char_class = "char \<Rightarrow> bool"

fun match_classes :: "char_class list \<Rightarrow> string \<Rightarrow> bool" where
  "match_classes [] s = True"
| "match_classes (p # ps) [] = False"
| "match_classes (p # ps) (c # cs) = (p c \<and> match_classes ps cs)"

definition exec_classes :: "char_class list \<Rightarrow> (string \<Rightarrow> string) \<Rightarrow> matcher" where
  "exec_classes ps rep s =
     (if match_classes ps s then Some (rep (take (length ps) s), length ps) else None)"

text \<open>Under the \<^verbatim>\<open>i\<close> flag: a bracket of literal characters (\<^verbatim>\<open>[o0]\<close>), a literal string
  (\<^verbatim>\<open>sky\<close>) and the range \<^verbatim>\<open>[A-Z]\<close>.\<close>

definition any_of_i :: "string \<Rightarrow> char_class" where
  "any_of_i s c \<longleftrightarrow> canonicalize c \<in> set (map canonicalize s)"

definition lit_i :: "string \<Rightarrow> char_class list" where
  "lit_i s = map (\<lambda>c. any_of_i [c]) s"

definition letter_i :: char_class where
  "letter_i c \<longleftrightarrow> canonicalize c \<in> set ''ABCDEFGHIJKLMNOPQRSTUVWXYZ''"

text \<open>The first alternative that succeeds, in the order a backtracking matcher tries
  them.\<close>

fun first_some :: "('a \<Rightarrow> 'b option) \<Rightarrow> 'a list \<Rightarrow> 'b option" where
  "first_some f [] = None"
| "first_some f (x # xs) = (case f x of Some y \<Rightarrow> Some y | None \<Rightarrow> first_some f xs)"

text \<open>
  \<^verbatim>\<open>/(\d+)\s*o\/o/gi\<close> and \<^verbatim>\<open>/(\d+)\s*0\/0/gi\<close> with the replacement \<^verbatim>\<open>'$1%'\<close>; \<open>tail\<close> is
  the literal part. Both quantifiers are greedy and give characters back on failure:
  \<^verbatim>\<open>\d+\<close> tries every number of digits \<open>k\<close> from the whole run down to one, and for each
  \<^verbatim>\<open>\s*\<close> tries every number of whitespace characters \<open>w\<close> from the whole run down to none.
\<close>

definition exec_percent :: "char_class list \<Rightarrow> matcher" where
  "exec_percent tail s =
     (let n = length (takeWhile isDigit s)
      in first_some
           (\<lambda>k. let r = drop k s;
                    m = length (takeWhile isWhitespace r)
                in first_some
                     (\<lambda>w. if match_classes tail (drop w r)
                          then Some (take k s @ ''%'', k + w + length tail)
                          else None)
                     (rev [0..<m + 1]))
           (rev [1..<n + 1]))"

text \<open>\<^verbatim>\<open>/\s+/g\<close> with the replacement \<^verbatim>\<open>' '\<close>: a maximal run of whitespace.\<close>

definition exec_spaces :: matcher where
  "exec_spaces s =
     (let n = length (takeWhile isWhitespace s)
      in if n > 0 then Some ('' '', n) else None)"

text \<open>\<^verbatim>\<open>/(.)\1{3,}/g\<close> with the replacement \<^verbatim>\<open>'$1$1'\<close>: a character that is not a line
  terminator, followed by at least three more copies of itself, as many as there are.\<close>

definition exec_repeat :: matcher where
  "exec_repeat s =
     (case s of
        [] \<Rightarrow> None
      | c # cs \<Rightarrow>
          let k = length (takeWhile (\<lambda>x. x = c) cs)
          in if \<not> isLineTerminator c \<and> 3 \<le> k then Some ([c, c], k + 1) else None)"

subsection \<open>\<^verbatim>\<open>OCRProcessor.normalizeText\<close>\<close>

text \<open>Rules 5 and 6 of the normalizer: \<^verbatim>\<open>replace(/\s+/g, ' ').trim()\<close> and
  \<^verbatim>\<open>replace(/(.)\1{3,}/g, '$1$1')\<close>.\<close>

definition collapse_whitespace :: "string \<Rightarrow> string" where
  "collapse_whitespace s = trim (replace_all exec_spaces s)"

definition collapse_repeats :: "string \<Rightarrow> string" where
  "collapse_repeats s = replace_all exec_repeat s"

text \<open>The two volume-unit rules: \<^verbatim>\<open>replace(/m[li1]/gi, 'ml')\<close> and
  \<^verbatim>\<open>replace(/[o0]z/gi, 'oz')\<close>.\<close>

definition fix_ml :: "string \<Rightarrow> string" where
  "fix_ml s = replace_all (exec_classes (lit_i ''m'' @ [any_of_i ''li1'']) (\<lambda>_. ''ml'')) s"

definition fix_oz :: "string \<Rightarrow> string" where
  "fix_oz s = replace_all (exec_classes ([any_of_i ''o0''] @ lit_i ''z'') (\<lambda>_. ''oz'')) s"

text \<open>\<^verbatim>\<open>replace(/([A-Z])d([A-Z])/gi, '$1l$2')\<close> for a digit \<open>d\<close> and a letter \<open>l\<close>.\<close>

definition fix_digit :: "char \<Rightarrow> char \<Rightarrow> string \<Rightarrow> string" where
  "fix_digit d l s =
     replace_all (exec_classes [letter_i, any_of_i [d], letter_i] (\<lambda>g. [g ! 0, l, g ! 2])) s"

text \<open>A word rule: a pattern of classes replaced by a fixed word.\<close>

definition fix_word :: "char_class list \<Rightarrow> string \<Rightarrow> string \<Rightarrow> string" where
  "fix_word ps w s = replace_all (exec_classes ps (\<lambda>_. w)) s"

text \<open>The whole normalizer, one line per \<^verbatim>\<open>normalized = normalized.replace(...)\<close> of the
  source and in its order. The table \<^verbatim>\<open>charFixes\<close> of the source is never read.\<close>

definition normalizeText :: "string \<Rightarrow> string" where
  "normalizeText text =
     (if text = [] then []
      else
        let normalized = text;
            normalized = fix_digit CHR ''0'' CHR ''O'' normalized;
            normalized = fix_digit CHR ''1'' CHR ''I'' normalized;
            normalized = fix_digit CHR ''5'' CHR ''S'' normalized;
            normalized = replace_all (exec_percent (lit_i ''o/o'')) normalized;
            normalized = replace_all (exec_percent (lit_i ''0/0'')) normalized;
            normalized = fix_word (lit_i ''pr'' @ [any_of_i ''o0'', any_of_i ''o0''] @ lit_i ''f'')
                           ''proof'' normalized;
            normalized = fix_word (lit_i ''pr'' @ [any_of_i ''o0''] @ lit_i ''of'')
                           ''proof'' normalized;
            normalized = fix_word (lit_i ''wh'' @ [any_of_i ''i1''] @ lit_i ''sky'')
                           ''whisky'' normalized;
            normalized = fix_word (lit_i ''wh'' @ [any_of_i ''i1''] @ lit_i ''skey'')
                           ''whiskey'' normalized;
            normalized = fix_word (lit_i ''v'' @ [any_of_i ''o0''] @ lit_i ''dka'')
                           ''vodka'' normalized;
            normalized = fix_word (lit_i ''t'' @ [any_of_i ''e3''] @ lit_i ''qu'' @
                                   [any_of_i ''i1''] @ lit_i ''la'')
                           ''tequila'' normalized;
            normalized = fix_word (lit_i ''b'' @ [any_of_i ''o0''] @ lit_i ''urb'' @
                                   [any_of_i ''o0''] @ lit_i ''n'')
                           ''bourbon'' normalized;
            normalized = fix_word (lit_i ''c'' @ [any_of_i ''o0''] @ lit_i ''gnac'')
                           ''cognac'' normalized;
            normalized = fix_word ([any_of_i ''b8''] @ lit_i ''randy'')
                           ''brandy'' normalized;
            normalized = fix_ml normalized;
            normalized = fix_oz normalized;
            normalized = collapse_whitespace normalized;
            normalized = collapse_repeats normalized
        in normalized)"

subsection \<open>\<^verbatim>\<open>OCRProcessor.processImage\<close>\<close>

text \<open>
  A configuration is a name and the three recognizer parameters; the constructor installs
  four of them. The object reads \<^verbatim>\<open>this.ocrConfigs\<close> when it processes an image, so the
  configuration list is an argument of the model.
\<close>

record ocr_config =
  name :: string
  tessedit_pageseg_mode :: nat
  tessedit_ocr_engine_mode :: nat
  preserve_interword_spaces :: string

definition sparseText :: ocr_config where
  "sparseText = \<lparr>name = ''Sparse Text'', tessedit_pageseg_mode = 11,
                  tessedit_ocr_engine_mode = 1, preserve_interword_spaces = ''1''\<rparr>"

definition autoDetection :: ocr_config where
  "autoDetection = \<lparr>name = ''Auto Detection'', tessedit_pageseg_mode = 3,
                     tessedit_ocr_engine_mode = 1, preserve_interword_spaces = ''1''\<rparr>"

definition singleBlock :: ocr_config where
  "singleBlock = \<lparr>name = ''Single Block'', tessedit_pageseg_mode = 6,
                   tessedit_ocr_engine_mode = 1, preserve_interword_spaces = ''1''\<rparr>"

definition rawLine :: ocr_config where
  "rawLine = \<lparr>name = ''Raw Line'', tessedit_pageseg_mode = 13,
               tessedit_ocr_engine_mode = 2, preserve_interword_spaces = ''1''\<rparr>"

definition ocrConfigs :: "ocr_config list" where
  "ocrConfigs = [sparseText, autoDetection, singleBlock, rawLine]"

text \<open>
  \<^verbatim>\<open>Tesseract.recognize\<close> is the external recognition dependency. For one image it is a
  function from the configuration it is called with to what the call does: it throws
  (\<open>Inl\<close>) or it returns \<^verbatim>\<open>result.data\<close> with a text and a confidence (\<open>Inr\<close>). The best
  result so far has the same two fields. The loop state records, besides the best result,
  the configurations the recognizer has been called with and the names the catch block
  has warned about, both in order. The progress callback only reports to the caller and
  is left out.
\<close>

record ocr_result =
  ocr_text :: string
  ocr_confidence :: real

type_synonym 'e recognizer = "ocr_config \<Rightarrow> 'e + ocr_result"

record ocr_state =
  bestResult :: "ocr_result option"
  calls :: "ocr_config list"
  warnings :: "string list"

text \<open>\<^verbatim>\<open>confidence * Math.log(text.length + 1)\<close>.\<close>

definition score :: "real \<Rightarrow> string \<Rightarrow> real" where
  "score c t = c * ln (real (length t) + 1)"

fun ocr_loop :: "'e recognizer \<Rightarrow> ocr_config list \<Rightarrow> ocr_state \<Rightarrow> ocr_state" where
  "ocr_loop recognize [] st = st"
| "ocr_loop recognize (config # rest) st =
     (let st = st\<lparr>calls := calls st @ [config]\<rparr>
      in case recognize config of
           Inl err \<Rightarrow> ocr_loop recognize rest (st\<lparr>warnings := warnings st @ [name config]\<rparr>)
         | Inr data \<Rightarrow>
             let normalizedText = normalizeText (ocr_text data);
                 better = (case bestResult st of
                             None \<Rightarrow> True
                           | Some best \<Rightarrow>
                               score (ocr_confidence data) normalizedText >
                               score (ocr_confidence best) (ocr_text best));
                 st = (if better
                       then st\<lparr>bestResult :=
                                 Some \<lparr>ocr_text = normalizedText,
                                       ocr_confidence = ocr_confidence data\<rparr>\<rparr>
                       else st)
             in if ocr_confidence data > 80 \<and> length normalizedText > 50 then st
                else ocr_loop recognize rest st)"

definition run_configs :: "ocr_config list \<Rightarrow> 'e recognizer \<Rightarrow> ocr_state" where
  "run_configs configs recognize =
     ocr_loop recognize configs \<lparr>bestResult = None, calls = [], warnings = []\<rparr>"

definition processImage :: "ocr_config list \<Rightarrow> 'e recognizer \<Rightarrow> error + ocr_result" where
  "processImage configs recognize =
     (case bestResult (run_configs configs recognize) of
        None \<Rightarrow> Inl AllOcrAttemptsFailed
      | Some best \<Rightarrow> Inr best)"

section \<open>Notions used to state and prove the properties\<close>

text \<open>The edit distance between the first \<open>j\<close> characters of \<open>a\<close> and the first \<open>i\<close>
  characters of \<open>b\<close>, by the textbook recurrence: what cell \<open>(i, j)\<close> of the matrix is meant
  to hold.\<close>

fun lev_rec :: "'a list \<Rightarrow> 'a list \<Rightarrow> nat \<Rightarrow> nat \<Rightarrow> nat" where
  "lev_rec a b 0 j = j"
| "lev_rec a b (Suc i) 0 = Suc i"
| "lev_rec a b (Suc i) (Suc j) =
     min (lev_rec a b i j + (if b ! i = a ! j then 0 else 1))
         (min (lev_rec a b (Suc i) j + 1) (lev_rec a b i (Suc j) + 1))"

text \<open>A matrix of \<open>r\<close> rows and \<open>c\<close> columns.\<close>

definition dims :: "nat \<Rightarrow> nat \<Rightarrow> matrix \<Rightarrow> bool" where
  "dims r c m \<longleftrightarrow> length m = r \<and> (\<forall>i<r. length (m ! i) = c)"

text \<open>The loop invariant of the distance computation: the first row, the first column,
  the rows before \<open>i0\<close> and the cells of row \<open>i0\<close> before column \<open>j0\<close> hold their final
  values.\<close>

definition filled :: "'a list \<Rightarrow> 'a list \<Rightarrow> nat \<Rightarrow> nat \<Rightarrow> matrix \<Rightarrow> bool" where
  "filled a b i0 j0 m \<longleftrightarrow>
     dims (length b + 1) (length a + 1) m \<and>
     (\<forall>i j. i \<le> length b \<longrightarrow> j \<le> length a \<longrightarrow>
        (i = 0 \<or> j = 0 \<or> i < i0 \<or> (i = i0 \<and> j < j0)) \<longrightarrow>
        cell m i j = lev_rec a b i j)"

text \<open>A string of the verifier written in ASCII and Latin-1 only: every code unit is
  below 256.\<close>

definition latin1 :: "js_string \<Rightarrow> bool" where
  "latin1 s = list_all (\<lambda>c. c < 0x0100) s"

text \<open>What a scan leaves behind. A text is \<open>collapsed\<close> when every whitespace character
  in it is a single space that another whitespace character does not follow, and
  \<open>trimmed\<close> when it neither starts nor ends with whitespace. A matcher is \<open>stable\<close>
  on a text that it matches nowhere. \<open>run c s\<close> is the number of copies of \<open>c\<close> at the
  start of \<open>s\<close>.\<close>

fun collapsed :: "string \<Rightarrow> bool" where
  "collapsed [] = True"
| "collapsed (c # s) =
     ((isWhitespace c \<longrightarrow> c = CHR '' '' \<and> (s = [] \<or> \<not> isWhitespace (hd s))) \<and> collapsed s)"

definition trimmed :: "string \<Rightarrow> bool" where
  "trimmed s \<longleftrightarrow> s = [] \<or> (\<not> isWhitespace (hd s) \<and> \<not> isWhitespace (last s))"

fun stable :: "matcher \<Rightarrow> string \<Rightarrow> bool" where
  "stable m [] = (m [] = None)"
| "stable m (c # cs) = (m (c # cs) = None \<and> stable m cs)"

definition run :: "char \<Rightarrow> string \<Rightarrow> nat" where
  "run c s = length (takeWhile (\<lambda>x. x = c) s)"

text \<open>The early-exit test of the OCR loop, on what the recognizer does for a
  configuration: it returns, with a confidence above 80 and a normalized text longer
  than 50 characters.\<close>

definition early_exit :: "'e recognizer \<Rightarrow> ocr_config \<Rightarrow> bool" where
  "early_exit recognize config =
     (case recognize config of
        Inl err \<Rightarrow> False
      | Inr data \<Rightarrow> ocr_confidence data > 80 \<and> length (normalizeText (ocr_text data)) > 50)"

text \<open>A result that is the normalized outcome of a successful recognition with one of the
  given configurations.\<close>

definition from_recognition :: "'e recognizer \<Rightarrow> ocr_config list \<Rightarrow> ocr_result \<Rightarrow> bool" where
  "from_recognition recognize configs r =
     list_ex (\<lambda>config.
        case recognize config of
          Inl err \<Rightarrow> False
        | Inr data \<Rightarrow> r = \<lparr>ocr_text = normalizeText (ocr_text data),
                           ocr_confidence = ocr_confidence data\<rparr>) configs"

text \<open>Scripted recognizers for concrete runs: one that always throws, one that throws
  for the first configuration and reads a label with confidence 92 for the others, and
  one that reads the label at once.\<close>

definition label_text :: string where
  "label_text = ''Straight Rye Whisky - Net Contents 750 ML - ABC Distillery''"

definition failing_recognizer :: "string recognizer" where
  "failing_recognizer config = Inl ''recognition failed''"

definition scripted_recognizer :: "string recognizer" where
  "scripted_recognizer config =
     (if name config = ''Sparse Text'' then Inl ''recognition failed''
      else Inr \<lparr>ocr_text = label_text, ocr_confidence = 92\<rparr>)"

definition confident_recognizer :: "string recognizer" where
  "confident_recognizer config = Inr \<lparr>ocr_text = label_text, ocr_confidence = 92\<rparr>"

section \<open>Properties of the edit distance\<close>

text \<open>The equations of the replacement scan are applied by name only.\<close>

declare replace_all.simps [simp del]

text \<open>A loop over an index range keeps an invariant that every round keeps.\<close>

lemma fold_upt_invariant:
  assumes "l \<le> u" and "P l s"
    and "\<And>k t. l \<le> k \<Longrightarrow> k < u \<Longrightarrow> P k t \<Longrightarrow> P (Suc k) (f k t)"
  shows "P u (fold f [l..<u] s)"
  using assms
proof (induction u)
  case 0
  then show ?case by simp
next
  case (Suc u)
  show ?case
  proof (cases "l = Suc u")
    case True
    with Suc.prems show ?thesis by simp
  next
    case False
    with Suc.prems have lu: "l \<le> u" by simp
    have "P u (fold f [l..<u] s)"
      using Suc.IH[OF lu Suc.prems(2)] Suc.prems(3) by simp
    then have "P (Suc u) (f u (fold f [l..<u] s))"
      using Suc.prems(3)[of u] lu by simp
    then show ?thesis using lu by simp
  qed
qed


lemma dims_replicate: "dims r c (replicate r (replicate c 0))"
  by (simp add: dims_def)

lemma dims_set_cell: "dims r c m \<Longrightarrow> dims r c (set_cell m i j v)"
  by (cases "i < length m") (auto simp: dims_def set_cell_def nth_list_update)

lemma cell_set_cell:
  "dims r c m \<Longrightarrow> i < r \<Longrightarrow> j < c \<Longrightarrow>
   cell (set_cell m i j v) i' j' = (if i' = i \<and> j' = j then v else cell m i' j')"
  by (auto simp: dims_def set_cell_def cell_def nth_list_update)

lemma lev_rec_col0: "lev_rec a b i 0 = i"
  by (cases i) simp_all

lemma first_column:
  "dims (length b + 1) c m \<Longrightarrow> 0 < c \<Longrightarrow>
   (let m' = fold (\<lambda>i m. set_cell m i 0 i) [0..<length b + 1] m
    in dims (length b + 1) c m' \<and> (\<forall>i\<le>length b. cell m' i 0 = i))"
proof -
  assume d: "dims (length b + 1) c m" and c: "0 < c"
  let ?P = "\<lambda>k t. dims (length b + 1) c t \<and> (\<forall>i<k. cell t i 0 = i)"
  have "?P (length b + 1) (fold (\<lambda>i m. set_cell m i 0 i) [0..<length b + 1] m)"
  proof (rule fold_upt_invariant[where P = ?P and l = 0])
    show "0 \<le> length b + 1" by simp
    show "?P 0 m" using d by simp
  next
    fix k t assume k: "k < length b + 1" and P: "?P k t"
    have "\<forall>i<Suc k. cell (set_cell t k 0 k) i 0 = i"
      using k P c cell_set_cell[of "length b + 1" c t k 0 k] by (simp add: less_Suc_eq)
    then show "?P (Suc k) (set_cell t k 0 k)"
      using P by (simp add: dims_set_cell)
  qed
  then show ?thesis by (simp add: Let_def less_Suc_eq_le)
qed

lemma first_row:
  "dims r (length a + 1) m \<Longrightarrow> 0 < r \<Longrightarrow> \<forall>i<r. cell m i 0 = i \<Longrightarrow>
   (let m' = fold (\<lambda>j m. set_cell m 0 j j) [0..<length a + 1] m
    in dims r (length a + 1) m' \<and> (\<forall>i<r. cell m' i 0 = i) \<and>
       (\<forall>j\<le>length a. cell m' 0 j = j))"
proof -
  assume d: "dims r (length a + 1) m" and r: "0 < r" and col: "\<forall>i<r. cell m i 0 = i"
  let ?P = "\<lambda>k t. dims r (length a + 1) t \<and> (\<forall>i<r. cell t i 0 = i) \<and>
                  (\<forall>j<k. cell t 0 j = j)"
  have "?P (length a + 1) (fold (\<lambda>j m. set_cell m 0 j j) [0..<length a + 1] m)"
  proof (rule fold_upt_invariant[where P = ?P and l = 0])
    show "0 \<le> length a + 1" by simp
    show "?P 0 m" using d col by simp
  next
    fix k t assume k: "k < length a + 1" and P: "?P k t"
    have upd: "\<And>p q. cell (set_cell t 0 k k) p q = (if p = 0 \<and> q = k then k else cell t p q)"
      using k P r cell_set_cell[of r "length a + 1" t 0 k k] by simp
    have "\<forall>i<r. cell (set_cell t 0 k k) i 0 = i"
      using P by (simp add: upd)
    moreover have "\<forall>j<Suc k. cell (set_cell t 0 k k) 0 j = j"
      using P by (simp add: upd less_Suc_eq)
    ultimately show "?P (Suc k) (set_cell t 0 k k)"
      using P by (simp add: dims_set_cell)
  qed
  then show ?thesis by (simp add: Let_def less_Suc_eq_le)
qed

lemma lev_step_filled:
  assumes f: "filled a b i j m" and i: "1 \<le> i" "i \<le> length b" and j: "1 \<le> j" "j \<le> length a"
  shows "filled a b i (Suc j) (lev_step a b i j m)"
proof -
  obtain i' j' where ij: "i = Suc i'" "j = Suc j'"
    using i j by (cases i; cases j) auto
  have d: "dims (length b + 1) (length a + 1) m" using f by (simp add: filled_def)
  have c1: "cell m i' j' = lev_rec a b i' j'"
    using f i j ij by (simp add: filled_def)
  have c2: "cell m i j' = lev_rec a b i j'"
    using f i j ij by (simp add: filled_def)
  have c3: "cell m i' j = lev_rec a b i' j"
    using f i j ij by (simp add: filled_def)
  have new: "lev_step a b i j m = set_cell m i j (lev_rec a b i j)"
    using c1 c2 c3 ij by (simp add: lev_step_def Let_def)
  show ?thesis
    unfolding filled_def new
  proof (intro conjI allI impI)
    show "dims (length b + 1) (length a + 1) (set_cell m i j (lev_rec a b i j))"
      using d by (rule dims_set_cell)
  next
    fix p q assume p: "p \<le> length b" and q: "q \<le> length a"
      and pq: "p = 0 \<or> q = 0 \<or> p < i \<or> p = i \<and> q < Suc j"
    show "cell (set_cell m i j (lev_rec a b i j)) p q = lev_rec a b p q"
    proof (cases "p = i \<and> q = j")
      case True
      then show ?thesis
        using d i j cell_set_cell[of "length b + 1" "length a + 1" m i j "lev_rec a b i j" p q]
        by simp
    next
      case False
      have "cell (set_cell m i j (lev_rec a b i j)) p q =
            (if p = i \<and> q = j then lev_rec a b i j else cell m p q)"
        using d i j by (intro cell_set_cell[of "length b + 1" "length a + 1"]) simp_all
      with False have "cell (set_cell m i j (lev_rec a b i j)) p q = cell m p q"
        by auto
      moreover have "cell m p q = lev_rec a b p q"
        using f p q pq False by (auto simp: filled_def)
      ultimately show ?thesis by simp
    qed
  qed
qed

lemma row_filled:
  assumes f: "filled a b i 1 m" and i: "1 \<le> i" "i \<le> length b"
  shows "filled a b (Suc i) 1 (fold (lev_step a b i) [1..<length a + 1] m)"
proof -
  have "filled a b i (length a + 1) (fold (lev_step a b i) [1..<length a + 1] m)"
  proof (rule fold_upt_invariant[where P = "filled a b i"])
    show "1 \<le> length a + 1" by simp
    show "filled a b i 1 m" by (rule f)
  next
    fix k t assume "1 \<le> k" "k < length a + 1" "filled a b i k t"
    then show "filled a b i (Suc k) (lev_step a b i k t)"
      using lev_step_filled[of a b i k t] i by simp
  qed
  then show ?thesis
    unfolding filled_def
  proof (intro conjI allI impI)
    fix p q
    assume h: "dims (length b + 1) (length a + 1) (fold (lev_step a b i) [1..<length a + 1] m) \<and>
       (\<forall>i' j. i' \<le> length b \<longrightarrow> j \<le> length a \<longrightarrow>
          (i' = 0 \<or> j = 0 \<or> i' < i \<or> (i' = i \<and> j < length a + 1)) \<longrightarrow>
          cell (fold (lev_step a b i) [1..<length a + 1] m) i' j = lev_rec a b i' j)"
      and p: "p \<le> length b" and q: "q \<le> length a"
      and pq: "p = 0 \<or> q = 0 \<or> p < Suc i \<or> p = Suc i \<and> q < 1"
    from pq q have "p = 0 \<or> q = 0 \<or> p < i \<or> (p = i \<and> q < length a + 1)"
      by auto
    with h p q show "cell (fold (lev_step a b i) [1..<length a + 1] m) p q = lev_rec a b p q"
      by blast
  qed simp
qed

lemma rows_filled:
  assumes f: "filled a b 1 1 m"
  shows "filled a b (length b + 1) 1
           (fold (\<lambda>i. fold (lev_step a b i) [1..<length a + 1]) [1..<length b + 1] m)"
proof (rule fold_upt_invariant[where P = "\<lambda>i. filled a b i 1"])
  show "1 \<le> length b + 1" by simp
  show "filled a b 1 1 m" by (rule f)
next
  fix k t assume "1 \<le> k" "k < length b + 1" "filled a b k 1 t"
  then show "filled a b (Suc k) 1 (fold (lev_step a b k) [1..<length a + 1] t)"
    using row_filled[of a b k t] by simp
qed

lemma levenshteinDistance_lev_rec:
  "levenshteinDistance a b = lev_rec a b (length b) (length a)"
proof (cases "a = [] \<or> b = []")
  case True
  then show ?thesis
    by (auto simp: levenshteinDistance_def lev_rec_col0)
next
  case False
  define m0 :: matrix where "m0 = replicate (length b + 1) (replicate (length a + 1) 0)"
  define m1 where "m1 = fold (\<lambda>i m. set_cell m i 0 i) [0..<length b + 1] m0"
  define m2 where "m2 = fold (\<lambda>j m. set_cell m 0 j j) [0..<length a + 1] m1"
  define m3 where "m3 = fold (\<lambda>i. fold (lev_step a b i) [1..<length a + 1]) [1..<length b + 1] m2"
  have d0: "dims (length b + 1) (length a + 1) m0"
    unfolding m0_def by (rule dims_replicate)
  have p1: "dims (length b + 1) (length a + 1) m1 \<and> (\<forall>i\<le>length b. cell m1 i 0 = i)"
    using first_column[OF d0] by (simp add: m1_def Let_def)
  have p2: "dims (length b + 1) (length a + 1) m2 \<and> (\<forall>i<length b + 1. cell m2 i 0 = i) \<and>
       (\<forall>j\<le>length a. cell m2 0 j = j)"
    using first_row[of "length b + 1" a m1] p1 by (simp add: m2_def Let_def less_Suc_eq_le)
  have "filled a b 1 1 m2"
    unfolding filled_def
  proof (intro conjI allI impI)
    show "dims (length b + 1) (length a + 1) m2" using p2 by simp
  next
    fix p q assume p: "p \<le> length b" and q: "q \<le> length a"
      and pq: "p = 0 \<or> q = 0 \<or> p < 1 \<or> p = 1 \<and> q < 1"
    then have "p = 0 \<or> q = 0" by auto
    then show "cell m2 p q = lev_rec a b p q"
    proof
      assume "p = 0" then show ?thesis using p2 q by simp
    next
      assume "q = 0" then show ?thesis using p2 p by (simp add: lev_rec_col0)
    qed
  qed
  then have "filled a b (length b + 1) 1 m3"
    unfolding m3_def by (rule rows_filled)
  then have "cell m3 (length b) (length a) = lev_rec a b (length b) (length a)"
    by (simp add: filled_def)
  moreover have "levenshteinDistance a b = cell m3 (length b) (length a)"
    using False by (simp add: levenshteinDistance_def Let_def m3_def m2_def m1_def m0_def)
  ultimately show ?thesis by simp
qed

lemma lev_rec_swap: "lev_rec a b i j = lev_rec b a j i"
proof (induction a b i j rule: lev_rec.induct)
  case (1 a b j)
  then show ?case by (simp add: lev_rec_col0)
next
  case (2 a b i)
  then show ?case by simp
next
  case (3 a b i j)
  have "(b ! i = a ! j) = (a ! j = b ! i)" by auto
  with 3 show ?case by (simp add: min.commute min.left_commute)
qed

lemma lev_rec_le_max: "lev_rec a b i j \<le> max i j"
proof (induction a b i j rule: lev_rec.induct)
  case (3 a b i j)
  have "lev_rec a b (Suc i) (Suc j) \<le> lev_rec a b i j + 1"
    by (simp add: min_def)
  also have "\<dots> \<le> max i j + 1" using 3 by simp
  finally show ?case by simp
qed (simp_all)

lemma levenshteinDistance_le_max:
  "levenshteinDistance a b \<le> max (length a) (length b)"
  using lev_rec_le_max[of a b "length b" "length a"]
  by (simp add: levenshteinDistance_lev_rec max.commute)

section \<open>Properties of the text verifier\<close>

lemma length_utf16: "length (utf16 s) = length s"
  by (simp add: utf16_def)

lemma str_includes_iff: "str_includes t s \<longleftrightarrow> (\<exists>ps ss. t = ps @ s @ ss)"
proof (induction t)
  case Nil
  then show ?case by auto
next
  case (Cons c cs)
  show ?case
  proof
    assume "str_includes (c # cs) s"
    then consider "prefix s (c # cs)" | "str_includes cs s" by auto
    then show "\<exists>ps ss. c # cs = ps @ s @ ss"
    proof cases
      case 1
      then obtain ss where "c # cs = s @ ss" by (auto simp: prefix_def)
      then have "c # cs = [] @ s @ ss" by simp
      then show ?thesis by blast
    next
      case 2
      with Cons.IH obtain ps ss where "cs = ps @ s @ ss" by auto
      then have "c # cs = (c # ps) @ s @ ss" by simp
      then show ?thesis by blast
    qed
  next
    assume "\<exists>ps ss. c # cs = ps @ s @ ss"
    then obtain ps ss where eq: "c # cs = ps @ s @ ss" by auto
    show "str_includes (c # cs) s"
    proof (cases ps)
      case Nil
      with eq have "prefix s (c # cs)" by (simp add: prefix_def)
      then show ?thesis by simp
    next
      case (Cons p ps')
      with eq have "cs = ps' @ s @ ss" by simp
      with Cons.IH have "str_includes cs s" by blast
      then show ?thesis by simp
    qed
  qed
qed

lemma str_includes_map: "str_includes t s \<Longrightarrow> str_includes (map f t) (map f s)"
proof -
  assume "str_includes t s"
  then obtain ps ss where "t = ps @ s @ ss" by (auto simp: str_includes_iff)
  then have "map f t = map f ps @ map f s @ map f ss" by simp
  then show ?thesis unfolding str_includes_iff by blast
qed

lemma to_confidence_range: "0 \<le> to_confidence d n \<and> to_confidence d n \<le> 1"
proof (cases d)
  case (enat k)
  have "(of_nat k :: rat) / of_nat n \<ge> 0" by simp
  then show ?thesis using enat by (simp add: to_confidence_def)
next
  case infinity
  then show ?thesis by (simp add: to_confidence_def)
qed

lemma to_confidence_antimono:
  assumes "d1 < d2"
  shows "to_confidence d2 n \<le> to_confidence d1 n"
proof (cases "n > 0")
  case False
  then show ?thesis by (simp add: to_confidence_def)
next
  case True
  from assms obtain k1 where k1: "d1 = enat k1" by (cases d1) auto
  show ?thesis
  proof (cases d2)
    case (enat k2)
    with assms k1 have "k1 < k2" by simp
    then have "(of_nat k1 :: rat) / of_nat n \<le> of_nat k2 / of_nat n"
      using True by (simp add: divide_right_mono)
    then show ?thesis using True k1 enat by (simp add: to_confidence_def)
  next
    case infinity
    then show ?thesis using True k1 by (simp add: to_confidence_def)
  qed
qed

lemma findBestMatch_exact:
  "str_includes text searchValue \<Longrightarrow>
   findBestMatch searchValue text = \<lparr>distance = 0, word = Some searchValue, confidence = 1\<rparr>"
  by (simp add: findBestMatch_def)

lemma findBestMatch_fuzzy_confidence:
  "\<not> str_includes text searchValue \<Longrightarrow>
   confidence (findBestMatch searchValue text) =
     to_confidence (distance (findBestMatch searchValue text))
       (maxLength searchValue (word (findBestMatch searchValue text)))"
  by (simp add: findBestMatch_def Let_def)

lemma findBestMatch_confidence_range:
  "0 \<le> confidence (findBestMatch searchValue text) \<and>
   confidence (findBestMatch searchValue text) \<le> 1"
proof (cases "str_includes text searchValue")
  case True
  then show ?thesis by (simp add: findBestMatch_exact)
next
  case False
  then show ?thesis by (simp add: findBestMatch_fuzzy_confidence to_confidence_range)
qed

lemma push_loop: "fold (\<lambda>entry results. results @ [f entry]) xs acc = acc @ map f xs"
  by (induction xs arbitrary: acc) simp_all

lemma verifyText_results:
  "extractedText \<noteq> [] \<Longrightarrow>
   verifyText extractedText fieldList =
     Inr (map (verify_entry (toLowerCase extractedText))
            (filter (\<lambda>(_, value). value \<noteq> []) fieldList))"
  by (simp add: verifyText_def Let_def push_loop)

lemma verifyText_Inr:
  "verifyText extractedText fieldList = Inr results \<Longrightarrow>
   results = map (verify_entry (toLowerCase extractedText))
               (filter (\<lambda>(_, value). value \<noteq> []) fieldList)"
  by (cases "extractedText = []") (simp_all add: verifyText_def Let_def push_loop)

text \<open>
  Claim C9. The Levenshtein distance implementation is symmetric: for all strings \<open>a\<close> and
  \<open>b\<close>, \<open>levenshteinDistance a b\<close> equals \<open>levenshteinDistance b a\<close>. The matrix computed for
  \<open>(a, b)\<close> is the transpose of the one computed for \<open>(b, a)\<close>, since both hold the values
  of the recurrence \<open>lev_rec\<close>.
\<close>
theorem levenshteinDistance_symmetric:
  "levenshteinDistance a b = levenshteinDistance b a"
  by (simp add: levenshteinDistance_lev_rec lev_rec_swap[of a b])

text \<open>
  Claim C1. Every verification result that \<open>verifyText\<close> returns (one for each field whose
  expected value is non-empty) has a confidence between 0 and 1, and its \<open>found\<close> flag is
  true exactly when that confidence is strictly greater than 0.7.
\<close>
theorem verifyText_confidence_and_threshold:
  assumes "verifyText extractedText fieldList = Inr results"
    and "r \<in> set results"
  shows "0 \<le> result_confidence r \<and> result_confidence r \<le> 1 \<and>
         (found r \<longleftrightarrow> result_confidence r > 7 / 10)"
proof -
  from assms obtain entry where
    r: "r = verify_entry (toLowerCase extractedText) entry"
    by (auto dest!: verifyText_Inr)
  show ?thesis
    unfolding r verify_entry_def Let_def
    using findBestMatch_confidence_range[of "toLowerCase (snd entry)" "toLowerCase extractedText"]
    by simp
qed

theorem verifyText_confidence_and_threshold_witness:
  "verifyText (utf16 ''ABC Straight Rye Whisky'')
     [(utf16 ''brandName'', utf16 ''ABD''), (utf16 ''netContents'', utf16 [])] =
     Inr [\<lparr>field = utf16 ''brandName'', input = utf16 ''ABD'', found = False,
           result_confidence = 2 / 3, bestMatch = Some (utf16 ''abc'')\<rparr>] \<and>
   (0::rat) \<le> 2 / 3 \<and> (2::rat) / 3 \<le> 1 \<and> (False \<longleftrightarrow> (2::rat) / 3 > 7 / 10)"
proof -
  let ?r = "\<lparr>field = utf16 ''brandName'', input = utf16 ''ABD'', found = False,
           result_confidence = 2 / 3, bestMatch = Some (utf16 ''abc'')\<rparr>"
  have run: "verifyText (utf16 ''ABC Straight Rye Whisky'')
     [(utf16 ''brandName'', utf16 ''ABD''), (utf16 ''netContents'', utf16 [])] = Inr [?r]"
    by code_simp
  have mem: "?r \<in> set [?r]" by simp
  from verifyText_confidence_and_threshold[OF run mem] run show ?thesis by simp
qed

text \<open>
  Claim C2. On a non-empty extracted text \<open>verifyText\<close> returns a result list whose
  (field name, expected value) pairs are exactly the entries of the fields object with a
  non-empty value, in the order of the fields object: one result for each such entry,
  none for an entry with an empty value.
\<close>
theorem verifyText_one_result_per_nonempty_field:
  assumes "extractedText \<noteq> []"
  shows "\<exists>results. verifyText extractedText fieldList = Inr results \<and>
           map (\<lambda>r. (field r, input r)) results =
             filter (\<lambda>(fieldName, fieldValue). fieldValue \<noteq> []) fieldList"
proof -
  have "map (\<lambda>r. (field r, input r)) (map (verify_entry (toLowerCase extractedText)) xs) = xs"
    for xs
    by (induction xs) (simp_all add: verify_entry_def Let_def)
  then show ?thesis
    using assms by (simp add: verifyText_results)
qed

theorem verifyText_one_result_per_nonempty_field_witness:
  "utf16 ''750 ml'' \<noteq> [] \<and>
   (\<exists>results. verifyText (utf16 ''750 ml'')
        [(utf16 ''brandName'', utf16 ''ABC''), (utf16 ''productClass'', utf16 []),
         (utf16 ''netContents'', utf16 ''750 ML'')] =
         Inr results \<and>
      map (\<lambda>r. (field r, input r)) results =
        [(utf16 ''brandName'', utf16 ''ABC''), (utf16 ''netContents'', utf16 ''750 ML'')])"
proof -
  have ne: "utf16 ''750 ml'' \<noteq> []" by (simp add: utf16_def)
  from verifyText_one_result_per_nonempty_field[OF ne,
      of "[(utf16 ''brandName'', utf16 ''ABC''), (utf16 ''productClass'', utf16 []),
           (utf16 ''netContents'', utf16 ''750 ML'')]"]
  show ?thesis by (simp add: utf16_def)
qed

lemma lower_from_empty: "lower_from left s = [] \<longleftrightarrow> s = []"
  by (cases s) simp_all

lemma toLowerCase_empty: "toLowerCase s = [] \<longleftrightarrow> s = []"
  by (simp add: toLowerCase_def lower_from_empty)

lemma lower_from_no_sigma:
  "0x03A3 \<notin> set s \<Longrightarrow> lower_from left s = map lower_unit s"
  by (induction s arbitrary: left) auto

lemma latin1_no_sigma: "latin1 s \<Longrightarrow> 0x03A3 \<notin> set s"
proof
  assume l: "latin1 s" and m: "0x03A3 \<in> set s"
  then have "(0x03A3 :: code_unit) < 0x0100" by (auto simp: latin1_def list_all_iff)
  then show False by simp
qed

lemma toLowerCase_latin1: "latin1 s \<Longrightarrow> toLowerCase s = map lower_unit s"
  by (simp add: toLowerCase_def lower_from_no_sigma latin1_no_sigma)

lemma latin1_substring: "latin1 (ps @ s @ ss) \<Longrightarrow> latin1 s"
  by (simp add: latin1_def)

lemma verifyText_lower_cased_containment:
  assumes mem: "(fieldName, expected) \<in> set fieldList" and ne: "expected \<noteq> []"
    and inc: "str_includes (toLowerCase extractedText) (toLowerCase expected)"
  shows "\<exists>results. verifyText extractedText fieldList = Inr results \<and>
           \<lparr>field = fieldName, input = expected, found = True, result_confidence = 1,
            bestMatch = Some (toLowerCase expected)\<rparr> \<in> set results"
proof -
  have "toLowerCase expected \<noteq> []" using ne by (simp add: toLowerCase_empty)
  with inc have "toLowerCase extractedText \<noteq> []"
    by (cases "toLowerCase extractedText") auto
  then have tne: "extractedText \<noteq> []" by (simp add: toLowerCase_empty)
  have "verify_entry (toLowerCase extractedText) (fieldName, expected) =
        \<lparr>field = fieldName, input = expected, found = True, result_confidence = 1,
          bestMatch = Some (toLowerCase expected)\<rparr>"
    by (simp add: verify_entry_def Let_def findBestMatch_exact[OF inc])
  moreover have "(fieldName, expected) \<in> set (filter (\<lambda>(_, value). value \<noteq> []) fieldList)"
    using mem ne by simp
  ultimately have "\<lparr>field = fieldName, input = expected, found = True, result_confidence = 1,
          bestMatch = Some (toLowerCase expected)\<rparr>
      \<in> set (map (verify_entry (toLowerCase extractedText))
            (filter (\<lambda>(_, value). value \<noteq> []) fieldList))"
    by (metis (no_types, lifting) image_eqI list.set_map)
  then show ?thesis by (simp add: verifyText_results[OF tne])
qed

text \<open>
  Claim C3, as stated: through \<open>verifyText\<close>, an expected value that the text contains up
  to letter case is matched with confidence 1, for every expected value and every text.
  This fails where lower-casing depends on the context. The text \<open>U+0391 U+03A3 U+0391\<close>
  (capital alpha, capital sigma, capital alpha) contains the expected value
  \<open>U+0391 U+03A3\<close> verbatim; the sigma of the expected value is final and becomes
  \<open>U+03C2\<close>, the sigma of the text is not and becomes \<open>U+03C3\<close>, so the lower-cased
  expected value is not in the lower-cased text and the fuzzy search gives confidence
  1/3.
\<close>

theorem case_insensitive_containment_counterexample:
  "str_includes [0x0391, 0x03A3, 0x0391 :: code_unit] [0x0391, 0x03A3] \<and>
   verifyText [0x0391, 0x03A3, 0x0391] [(utf16 ''brandName'', [0x0391, 0x03A3])] =
     Inr [\<lparr>field = utf16 ''brandName'', input = [0x0391, 0x03A3], found = False,
           result_confidence = 1 / 3, bestMatch = Some [0x03B1, 0x03C3, 0x03B1]\<rparr>]"
proof -
  have a: "str_includes [0x0391, 0x03A3, 0x0391 :: code_unit] [0x0391, 0x03A3]"
    by code_simp
  have b: "verifyText [0x0391, 0x03A3, 0x0391] [(utf16 ''brandName'', [0x0391, 0x03A3])] =
     Inr [\<lparr>field = utf16 ''brandName'', input = [0x0391, 0x03A3], found = False,
           result_confidence = 1 / 3, bestMatch = Some [0x03B1, 0x03C3, 0x03B1]\<rparr>]"
    by code_simp
  from a b show ?thesis by simp
qed

text \<open>
  Claim C3, amended. If the text contains the expected value verbatim then
  \<open>findBestMatch\<close> returns distance 0 and confidence 1. Through \<open>verifyText\<close>, a field with
  a non-empty expected value whose lower-cased form occurs in the lower-cased text gets
  a result with \<open>found = True\<close> and confidence 1. That is the case whenever the text and
  the expected value are written in ASCII and Latin-1 and the expected value occurs in
  the text up to letter case (some substring \<open>s\<close> of the text has the same lower-case
  form).
\<close>

theorem lower_cased_containment_gives_full_confidence:
  "(str_includes text expected \<longrightarrow>
      distance (findBestMatch expected text) = 0 \<and>
      confidence (findBestMatch expected text) = 1) \<and>
   ((fieldName, expected) \<in> set fieldList \<and> expected \<noteq> [] \<and>
    str_includes (toLowerCase extractedText) (toLowerCase expected) \<longrightarrow>
      (\<exists>results. verifyText extractedText fieldList = Inr results \<and>
         \<lparr>field = fieldName, input = expected, found = True, result_confidence = 1,
          bestMatch = Some (toLowerCase expected)\<rparr> \<in> set results)) \<and>
   ((fieldName, expected) \<in> set fieldList \<and> expected \<noteq> [] \<and>
    latin1 extractedText \<and> latin1 expected \<and>
    str_includes extractedText s \<and> toLowerCase s = toLowerCase expected \<longrightarrow>
      (\<exists>results. verifyText extractedText fieldList = Inr results \<and>
         \<lparr>field = fieldName, input = expected, found = True, result_confidence = 1,
          bestMatch = Some (toLowerCase expected)\<rparr> \<in> set results))"
proof (intro conjI impI)
  assume "str_includes text expected"
  then show "distance (findBestMatch expected text) = 0"
    and "confidence (findBestMatch expected text) = 1"
    by (simp_all add: findBestMatch_exact)
next
  assume "(fieldName, expected) \<in> set fieldList \<and> expected \<noteq> [] \<and>
    str_includes (toLowerCase extractedText) (toLowerCase expected)"
  then show "\<exists>results. verifyText extractedText fieldList = Inr results \<and>
         \<lparr>field = fieldName, input = expected, found = True, result_confidence = 1,
          bestMatch = Some (toLowerCase expected)\<rparr> \<in> set results"
    by (intro verifyText_lower_cased_containment) simp_all
next
  assume h: "(fieldName, expected) \<in> set fieldList \<and> expected \<noteq> [] \<and>
    latin1 extractedText \<and> latin1 expected \<and>
    str_includes extractedText s \<and> toLowerCase s = toLowerCase expected"
  then obtain ps ss where split: "extractedText = ps @ s @ ss"
    by (auto simp: str_includes_iff)
  with h have ls: "latin1 s" using latin1_substring by blast
  have "str_includes (map lower_unit extractedText) (map lower_unit s)"
    using h by (intro str_includes_map) simp
  then have "str_includes (toLowerCase extractedText) (toLowerCase s)"
    using h ls by (simp add: toLowerCase_latin1)
  with h have "str_includes (toLowerCase extractedText) (toLowerCase expected)" by simp
  with h show "\<exists>results. verifyText extractedText fieldList = Inr results \<and>
         \<lparr>field = fieldName, input = expected, found = True, result_confidence = 1,
          bestMatch = Some (toLowerCase expected)\<rparr> \<in> set results"
    by (intro verifyText_lower_cased_containment) simp_all
qed

theorem lower_cased_containment_gives_full_confidence_witness:
  "str_includes (utf16 ''net contents 750 ml'') (utf16 ''750 ml'') \<and>
   distance (findBestMatch (utf16 ''750 ml'') (utf16 ''net contents 750 ml'')) = 0 \<and>
   confidence (findBestMatch (utf16 ''750 ml'') (utf16 ''net contents 750 ml'')) = 1 \<and>
   (utf16 ''netContents'', utf16 ''750 ML'') \<in>
     set [(utf16 ''brandName'', utf16 ''ABC''), (utf16 ''netContents'', utf16 ''750 ML'')] \<and>
   utf16 ''750 ML'' \<noteq> [] \<and>
   str_includes (toLowerCase (utf16 ''Net Contents 750 ml'')) (toLowerCase (utf16 ''750 ML'')) \<and>
   latin1 (utf16 ''Net Contents 750 ml'') \<and> latin1 (utf16 ''750 ML'') \<and>
   str_includes (utf16 ''Net Contents 750 ml'') (utf16 ''750 ml'') \<and>
   toLowerCase (utf16 ''750 ml'') = toLowerCase (utf16 ''750 ML'') \<and>
   (\<exists>results. verifyText (utf16 ''Net Contents 750 ml'')
        [(utf16 ''brandName'', utf16 ''ABC''), (utf16 ''netContents'', utf16 ''750 ML'')] =
        Inr results \<and>
      \<lparr>field = utf16 ''netContents'', input = utf16 ''750 ML'', found = True,
       result_confidence = 1, bestMatch = Some (toLowerCase (utf16 ''750 ML''))\<rparr>
        \<in> set results)"
proof -
  let ?fields = "[(utf16 ''brandName'', utf16 ''ABC''), (utf16 ''netContents'', utf16 ''750 ML'')]"
  have h1: "str_includes (utf16 ''net contents 750 ml'') (utf16 ''750 ml'')" by code_simp
  have m: "(utf16 ''netContents'', utf16 ''750 ML'') \<in> set ?fields \<and> utf16 ''750 ML'' \<noteq> []"
    by (simp add: utf16_def)
  have h2: "str_includes (toLowerCase (utf16 ''Net Contents 750 ml''))
              (toLowerCase (utf16 ''750 ML''))"
    by code_simp
  have h3: "latin1 (utf16 ''Net Contents 750 ml'') \<and> latin1 (utf16 ''750 ML'') \<and>
            str_includes (utf16 ''Net Contents 750 ml'') (utf16 ''750 ml'') \<and>
            toLowerCase (utf16 ''750 ml'') = toLowerCase (utf16 ''750 ML'')"
    by code_simp
  note inst1 = lower_cased_containment_gives_full_confidence[of "utf16 ''net contents 750 ml''"
      "utf16 ''750 ml''"]
  note inst2 = lower_cased_containment_gives_full_confidence[of _ "utf16 ''750 ML''"
      "utf16 ''netContents''" ?fields "utf16 ''Net Contents 750 ml''" "utf16 ''750 ml''"]
  note inst3 = lower_cased_containment_gives_full_confidence[of _ "utf16 ''750 ML''"
      "utf16 ''netContents''" ?fields "utf16 ''Net Contents 750 ml''"]
  from inst1 h1 have c1:
    "distance (findBestMatch (utf16 ''750 ml'') (utf16 ''net contents 750 ml'')) = 0 \<and>
     confidence (findBestMatch (utf16 ''750 ml'') (utf16 ''net contents 750 ml'')) = 1"
    by blast
  from inst2 m h3 have c2: "\<exists>results. verifyText (utf16 ''Net Contents 750 ml'') ?fields =
        Inr results \<and>
      \<lparr>field = utf16 ''netContents'', input = utf16 ''750 ML'', found = True,
       result_confidence = 1, bestMatch = Some (toLowerCase (utf16 ''750 ML''))\<rparr>
        \<in> set results"
    by blast
  from inst3 m h2 have c3: "\<exists>results. verifyText (utf16 ''Net Contents 750 ml'') ?fields =
        Inr results \<and>
      \<lparr>field = utf16 ''netContents'', input = utf16 ''750 ML'', found = True,
       result_confidence = 1, bestMatch = Some (toLowerCase (utf16 ''750 ML''))\<rparr>
        \<in> set results"
    by blast
  from h1 m h2 h3 c1 c2 c3 show ?thesis by blast
qed

text \<open>
  Claim C5, as stated: for any two inputs, a lower best edit distance never comes with a
  lower confidence. This fails, because the confidence divides the distance by the longer
  of the expected value and the matched text: distance 2 on two characters gives
  confidence 0, distance 3 on five characters gives 2/5.
\<close>
theorem lower_distance_lower_confidence_counterexample:
  "distance (findBestMatch (utf16 ''ab'') (utf16 ''xy'')) <
     distance (findBestMatch (utf16 ''abcde'') (utf16 ''abxyz'')) \<and>
   confidence (findBestMatch (utf16 ''ab'') (utf16 ''xy'')) <
     confidence (findBestMatch (utf16 ''abcde'') (utf16 ''abxyz''))"
proof -
  have "findBestMatch (utf16 ''ab'') (utf16 ''xy'') =
      \<lparr>distance = 2, word = Some (utf16 ''xy''), confidence = 0\<rparr>"
    by code_simp
  moreover have "findBestMatch (utf16 ''abcde'') (utf16 ''abxyz'') =
      \<lparr>distance = 3, word = Some (utf16 ''abxyz''), confidence = 2 / 5\<rparr>"
    by code_simp
  ultimately show ?thesis by simp
qed

text \<open>
  Claim C5, amended: for two inputs with the same normalising length (the longer of the
  expected value and the matched text), a strictly lower best edit distance never comes
  with a lower confidence.
\<close>

theorem confidence_monotone_at_equal_length:
  assumes "distance (findBestMatch e1 t1) < distance (findBestMatch e2 t2)"
    and "maxLength e1 (word (findBestMatch e1 t1)) = maxLength e2 (word (findBestMatch e2 t2))"
  shows "confidence (findBestMatch e2 t2) \<le> confidence (findBestMatch e1 t1)"
proof (cases "str_includes t1 e1")
  case True
  then have "confidence (findBestMatch e1 t1) = 1" by (simp add: findBestMatch_exact)
  then show ?thesis using findBestMatch_confidence_range[of e2 t2] by simp
next
  case False
  have "\<not> str_includes t2 e2"
  proof
    assume "str_includes t2 e2"
    then have "distance (findBestMatch e2 t2) = 0" by (simp add: findBestMatch_exact)
    with assms(1) show False by simp
  qed
  then show ?thesis
    using False assms by (simp add: findBestMatch_fuzzy_confidence to_confidence_antimono)
qed

theorem confidence_monotone_at_equal_length_witness:
  "distance (findBestMatch (utf16 ''abcde'') (utf16 ''abcdx'')) <
     distance (findBestMatch (utf16 ''abcde'') (utf16 ''abxyz'')) \<and>
   maxLength (utf16 ''abcde'') (word (findBestMatch (utf16 ''abcde'') (utf16 ''abcdx''))) =
     maxLength (utf16 ''abcde'') (word (findBestMatch (utf16 ''abcde'') (utf16 ''abxyz''))) \<and>
   confidence (findBestMatch (utf16 ''abcde'') (utf16 ''abxyz'')) \<le>
     confidence (findBestMatch (utf16 ''abcde'') (utf16 ''abcdx''))"
proof -
  have m1: "findBestMatch (utf16 ''abcde'') (utf16 ''abcdx'') =
      \<lparr>distance = 1, word = Some (utf16 ''abcdx''), confidence = 4 / 5\<rparr>"
    by code_simp
  have m2: "findBestMatch (utf16 ''abcde'') (utf16 ''abxyz'') =
      \<lparr>distance = 3, word = Some (utf16 ''abxyz''), confidence = 2 / 5\<rparr>"
    by code_simp
  have h1: "distance (findBestMatch (utf16 ''abcde'') (utf16 ''abcdx'')) <
      distance (findBestMatch (utf16 ''abcde'') (utf16 ''abxyz''))"
    by (simp add: m1 m2)
  have h2: "maxLength (utf16 ''abcde'') (word (findBestMatch (utf16 ''abcde'') (utf16 ''abcdx''))) =
     maxLength (utf16 ''abcde'') (word (findBestMatch (utf16 ''abcde'') (utf16 ''abxyz'')))"
    by (simp add: m1 m2 maxLength_def length_utf16)
  from confidence_monotone_at_equal_length[OF h1 h2] h1 h2 show ?thesis by blast
qed

section \<open>Properties of the text normalizer\<close>

lemma replace_two_classes_simps:
  "replace_all (exec_classes [A, B] (\<lambda>_. w)) [] = []"
  "replace_all (exec_classes [A, B] (\<lambda>_. w)) [x] = [x]"
  "replace_all (exec_classes [A, B] (\<lambda>_. w)) (x # y # s) =
     (if A x \<and> B y then w @ replace_all (exec_classes [A, B] (\<lambda>_. w)) s
      else x # replace_all (exec_classes [A, B] (\<lambda>_. w)) (y # s))"
  by (simp_all add: replace_all.simps exec_classes_def)

lemma replace_two_classes_occurrence:
  assumes disj: "\<And>c. A c \<Longrightarrow> \<not> B c" and c1: "A c1" and c2: "B c2"
  shows "replace_all (exec_classes [A, B] (\<lambda>_. w)) (pre @ c1 # c2 # post) =
         replace_all (exec_classes [A, B] (\<lambda>_. w)) pre @ w @
         replace_all (exec_classes [A, B] (\<lambda>_. w)) post"
proof (induction pre rule: induct_list012)
  case 1
  show ?case using c1 c2 by (simp add: replace_two_classes_simps)
next
  case (2 x)
  have "\<not> B c1" using disj c1 by simp
  then show ?case using c1 c2 by (simp add: replace_two_classes_simps)
next
  case (3 x y zs)
  then show ?case by (simp add: replace_two_classes_simps)
qed

lemma m_class: "c \<in> set ''mM'' \<Longrightarrow> any_of_i ''m'' c"
proof -
  assume "c \<in> set ''mM''"
  then consider "c = CHR ''m''" | "c = CHR ''M''" by auto
  then show ?thesis
  proof cases
    case 1
    have "any_of_i ''m'' CHR ''m''" by code_simp
    with 1 show ?thesis by simp
  next
    case 2
    have "any_of_i ''m'' CHR ''M''" by code_simp
    with 2 show ?thesis by simp
  qed
qed

lemma li1_class: "c \<in> set ''lLiI1'' \<Longrightarrow> any_of_i ''li1'' c"
proof -
  have "list_all (any_of_i ''li1'') ''lLiI1''" by code_simp
  then show "c \<in> set ''lLiI1'' \<Longrightarrow> any_of_i ''li1'' c"
    unfolding list_all_iff by blast
qed

lemma o0_class: "c \<in> set ''oO0'' \<Longrightarrow> any_of_i ''o0'' c"
proof -
  have "list_all (any_of_i ''o0'') ''oO0''" by code_simp
  then show "c \<in> set ''oO0'' \<Longrightarrow> any_of_i ''o0'' c"
    unfolding list_all_iff by blast
qed

lemma z_class: "c \<in> set ''zZ'' \<Longrightarrow> any_of_i ''z'' c"
proof -
  have "list_all (any_of_i ''z'') ''zZ''" by code_simp
  then show "c \<in> set ''zZ'' \<Longrightarrow> any_of_i ''z'' c"
    unfolding list_all_iff by blast
qed

lemma m_not_li1: "any_of_i ''m'' c \<Longrightarrow> \<not> any_of_i ''li1'' c"
proof -
  have a: "map canonicalize ''m'' = ''M''" by code_simp
  have b: "map canonicalize ''li1'' = ''LI1''" by code_simp
  show "any_of_i ''m'' c \<Longrightarrow> \<not> any_of_i ''li1'' c"
    unfolding any_of_i_def a b by auto
qed

lemma o0_not_z: "any_of_i ''o0'' c \<Longrightarrow> \<not> any_of_i ''z'' c"
proof -
  have a: "map canonicalize ''o0'' = ''O0''" by code_simp
  have b: "map canonicalize ''z'' = ''Z''" by code_simp
  show "any_of_i ''o0'' c \<Longrightarrow> \<not> any_of_i ''z'' c"
    unfolding any_of_i_def a b by auto
qed

lemma fix_ml_occurrence:
  "c1 \<in> set ''mM'' \<Longrightarrow> c2 \<in> set ''lLiI1'' \<Longrightarrow>
   fix_ml (pre @ c1 # c2 # post) = fix_ml pre @ ''ml'' @ fix_ml post"
  unfolding fix_ml_def lit_i_def
  using replace_two_classes_occurrence[of "any_of_i ''m''" "any_of_i ''li1''" c1 c2 "''ml''" pre post]
  by (simp add: m_class li1_class m_not_li1)

lemma fix_oz_occurrence:
  "c1 \<in> set ''oO0'' \<Longrightarrow> c2 \<in> set ''zZ'' \<Longrightarrow>
   fix_oz (pre @ c1 # c2 # post) = fix_oz pre @ ''oz'' @ fix_oz post"
  unfolding fix_oz_def lit_i_def
  using replace_two_classes_occurrence[of "any_of_i ''o0''" "any_of_i ''z''" c1 c2 "''oz''" pre post]
  by (simp add: o0_class z_class o0_not_z)

lemma normalizeText_premium: "normalizeText ''PREMIUM'' = ''PREmlUM''"
  by code_simp

lemma normalizeText_whi5ky: "normalizeText ''WHI5KY 4O o/o'' = ''whisky 4O o/o''"
  by code_simp

lemma normalizeText_whi5ky_zero: "normalizeText ''WHI5KY 40 o/o'' = ''whisky 40%''"
  by code_simp

text \<open>
  Claim C10. The two volume-unit rules rewrite every occurrence of their pattern,
  wherever it stands: an \<open>m\<close> or \<open>M\<close> followed by one of \<open>l, L, i, I, 1\<close> becomes the
  lower-case \<open>ml\<close>, an \<open>o\<close>, \<open>O\<close> or \<open>0\<close> followed by \<open>z\<close> or \<open>Z\<close> becomes the lower-case
  \<open>oz\<close>, whatever comes before and after. So an ordinary word is rewritten too: the
  purely alphabetic \<open>PREMIUM\<close> is normalized to \<open>PREmlUM\<close>.
\<close>
theorem unit_rules_rewrite_inside_words:
  "(c1 \<in> set ''mM'' \<and> c2 \<in> set ''lLiI1'' \<longrightarrow>
      fix_ml (pre @ c1 # c2 # post) = fix_ml pre @ ''ml'' @ fix_ml post) \<and>
   (d1 \<in> set ''oO0'' \<and> d2 \<in> set ''zZ'' \<longrightarrow>
      fix_oz (pre @ d1 # d2 # post) = fix_oz pre @ ''oz'' @ fix_oz post) \<and>
   list_all letter_i ''PREMIUM'' \<and>
   normalizeText ''PREMIUM'' = ''PREmlUM'' \<and>
   normalizeText ''PREMIUM'' \<noteq> ''PREMIUM''"
proof -
  have ex: "normalizeText ''PREMIUM'' = ''PREmlUM''" by (rule normalizeText_premium)
  have alpha: "list_all letter_i ''PREMIUM''" by code_simp
  show ?thesis
    using ex alpha by (simp add: fix_ml_occurrence fix_oz_occurrence)
qed

theorem unit_rules_rewrite_inside_words_witness:
  "CHR ''M'' \<in> set ''mM'' \<and> CHR ''I'' \<in> set ''lLiI1'' \<and>
   fix_ml ''PREMIUM'' = fix_ml ''PRE'' @ ''ml'' @ fix_ml ''UM'' \<and>
   CHR ''O'' \<in> set ''oO0'' \<and> CHR ''Z'' \<in> set ''zZ'' \<and>
   fix_oz ''PREOZUM'' = fix_oz ''PRE'' @ ''oz'' @ fix_oz ''UM'' \<and>
   normalizeText ''PREMIUM'' = ''PREmlUM''"
proof -
  have h1: "CHR ''M'' \<in> set ''mM'' \<and> CHR ''I'' \<in> set ''lLiI1''" by simp
  have h2: "CHR ''O'' \<in> set ''oO0'' \<and> CHR ''Z'' \<in> set ''zZ''" by simp
  note inst = unit_rules_rewrite_inside_words[of "CHR ''M''" "CHR ''I''" "''PRE''" "''UM''"
      "CHR ''O''" "CHR ''Z''"]
  from inst h1 have a: "fix_ml (''PRE'' @ CHR ''M'' # CHR ''I'' # ''UM'') =
      fix_ml ''PRE'' @ ''ml'' @ fix_ml ''UM''" by blast
  from inst h2 have b: "fix_oz (''PRE'' @ CHR ''O'' # CHR ''Z'' # ''UM'') =
      fix_oz ''PRE'' @ ''oz'' @ fix_oz ''UM''" by blast
  from inst have c: "normalizeText ''PREMIUM'' = ''PREmlUM''" by blast
  from h1 h2 a b c show ?thesis by simp
qed

text \<open>
  Claim C4, as stated: the normalized form of the raw text \<open>WHI5KY 4O o/o\<close> contains both
  the upper-case word \<open>WHISKY\<close> and \<open>40%\<close>. It contains neither: the spirit-name rule
  writes the word in lower case, and the character after the \<open>4\<close> is the letter \<open>O\<close>, so
  the percent rule finds no number in front of \<open>o/o\<close>.
\<close>
theorem normalize_scenario_C_counterexample:
  "\<not> str_includes (normalizeText ''WHI5KY 4O o/o'') ''WHISKY'' \<and>
   \<not> str_includes (normalizeText ''WHI5KY 4O o/o'') ''40%''"
proof -
  have "normalizeText ''WHI5KY 4O o/o'' = ''whisky 4O o/o''" by (rule normalizeText_whi5ky)
  moreover have "\<not> str_includes ''whisky 4O o/o'' ''WHISKY''" by code_simp
  moreover have "\<not> str_includes ''whisky 4O o/o'' ''40%''" by code_simp
  ultimately show ?thesis by simp
qed

text \<open>
  Claim C4, amended: the raw text \<open>WHI5KY 4O o/o\<close> is normalized to \<open>whisky 4O o/o\<close>,
  which contains the lower-case word \<open>whisky\<close>; with the digit zero in place of the
  letter \<open>O\<close>, \<open>WHI5KY 40 o/o\<close> is normalized to \<open>whisky 40%\<close>.
\<close>

theorem normalize_scenario_C:
  "normalizeText ''WHI5KY 4O o/o'' = ''whisky 4O o/o'' \<and>
   str_includes (normalizeText ''WHI5KY 4O o/o'') ''whisky'' \<and>
   normalizeText ''WHI5KY 40 o/o'' = ''whisky 40%''"
proof -
  have a: "normalizeText ''WHI5KY 4O o/o'' = ''whisky 4O o/o''" by (rule normalizeText_whi5ky)
  have b: "str_includes ''whisky 4O o/o'' ''whisky''" by code_simp
  have c: "normalizeText ''WHI5KY 40 o/o'' = ''whisky 40%''" by (rule normalizeText_whi5ky_zero)
  from a b c show ?thesis by simp
qed

subsection \<open>Scans that find nothing to replace\<close>

lemma stable_replace_all: "stable m s \<Longrightarrow> replace_all m s = s"
  by (induction s) (simp_all add: replace_all.simps)

subsection \<open>Whitespace collapse\<close>

lemma replace_spaces_Nil: "replace_all exec_spaces [] = []"
  by (simp add: replace_all.simps exec_spaces_def)

lemma replace_spaces_Cons:
  "replace_all exec_spaces (c # cs) =
     (if isWhitespace c then CHR '' '' # replace_all exec_spaces (dropWhile isWhitespace cs)
      else c # replace_all exec_spaces cs)"
  by (simp add: replace_all.simps exec_spaces_def dropWhile_eq_drop)

lemma replace_spaces_empty: "replace_all exec_spaces s = [] \<longleftrightarrow> s = []"
  by (cases s) (simp_all add: replace_spaces_Nil replace_spaces_Cons)

lemma replace_spaces_hd:
  "s \<noteq> [] \<Longrightarrow> \<not> isWhitespace (hd s) \<Longrightarrow> hd (replace_all exec_spaces s) = hd s"
  by (cases s) (simp_all add: replace_spaces_Cons)

lemma collapsed_replace_spaces: "collapsed (replace_all exec_spaces s)"
proof (induction "length s" arbitrary: s rule: less_induct)
  case less
  show ?case
  proof (cases s)
    case Nil
    then show ?thesis by (simp add: replace_spaces_Nil)
  next
    case (Cons c cs)
    show ?thesis
    proof (cases "isWhitespace c")
      case False
      have "collapsed (replace_all exec_spaces cs)"
        using less[of cs] Cons by simp
      with False Cons show ?thesis
        by (simp add: replace_spaces_Cons)
    next
      case True
      let ?d = "dropWhile isWhitespace cs"
      have "length ?d \<le> length cs" by (rule length_dropWhile_le)
      then have IH: "collapsed (replace_all exec_spaces ?d)"
        using less[of ?d] Cons by simp
      have "replace_all exec_spaces ?d = [] \<or> \<not> isWhitespace (hd (replace_all exec_spaces ?d))"
      proof (cases "?d = []")
        case True
        then show ?thesis by (metis replace_spaces_Nil)
      next
        case False
        then have "\<not> isWhitespace (hd ?d)" by (rule hd_dropWhile)
        with False show ?thesis by (simp add: replace_spaces_hd)
      qed
      with IH True Cons show ?thesis
        by (simp add: replace_spaces_Cons)
    qed
  qed
qed

lemma collapsed_replace_spaces_id: "collapsed s \<Longrightarrow> replace_all exec_spaces s = s"
proof (induction s)
  case Nil
  show ?case by (simp add: replace_spaces_Nil)
next
  case (Cons c cs)
  then have IH: "replace_all exec_spaces cs = cs" by simp
  show ?case
  proof (cases "isWhitespace c")
    case False
    with IH show ?thesis by (simp add: replace_spaces_Cons)
  next
    case True
    with Cons.prems have c: "c = CHR '' ''" and nx: "cs = [] \<or> \<not> isWhitespace (hd cs)"
      by simp_all
    from nx have "dropWhile isWhitespace cs = cs" by (cases cs) auto
    with True c IH show ?thesis by (simp add: replace_spaces_Cons)
  qed
qed

lemma collapsed_suffix: "collapsed (xs @ ys) \<Longrightarrow> collapsed ys"
  by (induction xs) simp_all

lemma collapsed_prefix: "collapsed (xs @ ys) \<Longrightarrow> collapsed xs"
proof (induction xs)
  case Nil
  show ?case by simp
next
  case (Cons c xs)
  then show ?case by (cases xs) auto
qed

lemma strip_end_prefix: "t = rev (dropWhile P (rev t)) @ rev (takeWhile P (rev t))"
proof -
  have "rev (rev (dropWhile P (rev t)) @ rev (takeWhile P (rev t))) = rev t"
    by (simp only: rev_append rev_rev_ident takeWhile_dropWhile_id)
  then have "rev (dropWhile P (rev t)) @ rev (takeWhile P (rev t)) = t"
    by (simp only: rev_is_rev_conv)
  then show ?thesis by (rule sym)
qed

lemma collapsed_trim: "collapsed s \<Longrightarrow> collapsed (trim s)"
proof -
  assume c: "collapsed s"
  let ?t = "dropWhile isWhitespace s"
  have "s = takeWhile isWhitespace s @ ?t" by simp
  with c have "collapsed ?t" using collapsed_suffix by metis
  then have "collapsed (rev (dropWhile isWhitespace (rev ?t)) @ rev (takeWhile isWhitespace (rev ?t)))"
    using strip_end_prefix[of ?t isWhitespace] by simp
  then show ?thesis unfolding trim_def by (rule collapsed_prefix)
qed

lemma trimmed_trim: "trimmed (trim s)"
proof (cases "trim s = []")
  case True
  then show ?thesis by (simp add: trimmed_def)
next
  case False
  let ?t = "dropWhile isWhitespace s"
  let ?u = "dropWhile isWhitespace (rev ?t)"
  have u: "trim s = rev ?u" by (simp add: trim_def)
  with False have une: "?u \<noteq> []" by simp
  then have "\<not> isWhitespace (hd ?u)" by (rule hd_dropWhile)
  then have last_ok: "\<not> isWhitespace (last (trim s))"
    using une by (simp add: u last_rev)
  have pre: "?t = trim s @ rev (takeWhile isWhitespace (rev ?t))"
    using strip_end_prefix[of ?t isWhitespace] by (simp add: trim_def)
  then have tne: "?t \<noteq> []" using False by (metis append_is_Nil_conv)
  then have "\<not> isWhitespace (hd ?t)" by (rule hd_dropWhile)
  moreover have "hd ?t = hd (trim s)"
    using pre False by (metis hd_append2)
  ultimately show ?thesis using last_ok by (simp add: trimmed_def)
qed

lemma trimmed_trim_id: "trimmed s \<Longrightarrow> trim s = s"
proof (cases "s = []")
  case True
  then show ?thesis by (simp add: trim_def)
next
  case False
  assume "trimmed s"
  with False have h: "\<not> isWhitespace (hd s)" and l: "\<not> isWhitespace (last s)"
    by (simp_all add: trimmed_def)
  from h False have a: "dropWhile isWhitespace s = s" by (cases s) auto
  have "rev s \<noteq> []" using False by simp
  then obtain x xs where rx: "rev s = x # xs" by (cases "rev s") auto
  have "hd (rev s) = last s" using False by (simp add: hd_rev)
  then have "x = last s" unfolding rx by simp
  with l have "dropWhile isWhitespace (x # xs) = x # xs" by simp
  then have "dropWhile isWhitespace (rev s) = rev s" unfolding rx .
  with a show ?thesis by (simp add: trim_def)
qed

subsection \<open>Repeat collapse\<close>

lemma replace_repeat_Nil: "replace_all exec_repeat [] = []"
  by (simp add: replace_all.simps exec_repeat_def)

lemma replace_repeat_match:
  "\<not> isLineTerminator c \<Longrightarrow> 3 \<le> run c cs \<Longrightarrow>
   replace_all exec_repeat (c # cs) =
     c # c # replace_all exec_repeat (dropWhile (\<lambda>x. x = c) cs)"
  by (simp add: replace_all.simps exec_repeat_def run_def Let_def dropWhile_eq_drop)

lemma replace_repeat_nomatch:
  "isLineTerminator c \<or> run c cs < 3 \<Longrightarrow>
   replace_all exec_repeat (c # cs) = c # replace_all exec_repeat cs"
  by (auto simp: replace_all.simps exec_repeat_def run_def Let_def)

lemma exec_repeat_None:
  "exec_repeat (c # cs) = None \<longleftrightarrow> isLineTerminator c \<or> run c cs < 3"
  by (auto simp: exec_repeat_def run_def Let_def)

lemma run_Cons: "run c (d # s) = (if d = c then Suc (run c s) else 0)"
  by (simp add: run_def)

lemma run_Nil: "run c [] = 0"
  by (simp add: run_def)

lemma run_dropWhile: "run c (dropWhile (\<lambda>x. x = c) s) = 0"
proof (cases "dropWhile (\<lambda>x. x = c) s")
  case Nil
  show ?thesis unfolding Nil by (rule run_Nil)
next
  case (Cons d ds)
  then have "d \<noteq> c" using dropWhile_eq_Cons_conv[of "\<lambda>x. x = c" s d ds] by simp
  then show ?thesis unfolding Cons by (simp add: run_Cons)
qed

lemma replace_repeat_cases:
  obtains (nomatch) c cs where "s = c # cs" "isLineTerminator c \<or> run c cs < 3"
      "replace_all exec_repeat s = c # replace_all exec_repeat cs"
    | (match) c cs where "s = c # cs" "\<not> isLineTerminator c" "3 \<le> run c cs"
      "replace_all exec_repeat s = c # c # replace_all exec_repeat (dropWhile (\<lambda>x. x = c) cs)"
    | (empty) "s = []" "replace_all exec_repeat s = []"
proof (cases s)
  case Nil
  then show ?thesis using empty by (simp add: replace_repeat_Nil)
next
  case (Cons c cs)
  show ?thesis
  proof (cases "\<not> isLineTerminator c \<and> 3 \<le> run c cs")
    case True
    then show ?thesis using match[of c cs] Cons by (simp add: replace_repeat_match)
  next
    case False
    then have "isLineTerminator c \<or> run c cs < 3" by auto
    then show ?thesis using nomatch[of c cs] Cons by (simp add: replace_repeat_nomatch)
  qed
qed

lemma replace_repeat_empty: "replace_all exec_repeat s = [] \<longleftrightarrow> s = []"
  by (cases s rule: replace_repeat_cases) simp_all

lemma replace_repeat_hd: "s \<noteq> [] \<Longrightarrow> hd (replace_all exec_repeat s) = hd s"
  by (cases s rule: replace_repeat_cases) simp_all

lemma replace_repeat_last: "s \<noteq> [] \<Longrightarrow> last (replace_all exec_repeat s) = last s"
proof (induction "length s" arbitrary: s rule: less_induct)
  case less
  show ?case
  proof (cases s rule: replace_repeat_cases)
    case empty
    with less.prems show ?thesis by simp
  next
    case (nomatch c cs)
    show ?thesis
    proof (cases "cs = []")
      case True
      then show ?thesis using nomatch by (simp add: replace_repeat_Nil)
    next
      case False
      then have "last (replace_all exec_repeat cs) = last cs"
        using less.hyps[of cs] nomatch by simp
      then show ?thesis using nomatch False by (simp add: replace_repeat_empty)
    qed
  next
    case (match c cs)
    let ?d = "dropWhile (\<lambda>x. x = c) cs"
    show ?thesis
    proof (cases "?d = []")
      case True
      then have all: "\<forall>x\<in>set cs. x = c" by (simp add: dropWhile_eq_Nil_conv)
      have "last s \<in> set s" using less.prems by (rule last_in_set)
      with all match have "last s = c" by auto
      moreover have "replace_all exec_repeat ?d = []"
        using True by (metis replace_repeat_Nil)
      ultimately show ?thesis using match by simp
    next
      case False
      have "length ?d \<le> length cs" by (rule length_dropWhile_le)
      then have "last (replace_all exec_repeat ?d) = last ?d"
        using less.hyps[of ?d] match False by simp
      moreover have "cs = takeWhile (\<lambda>x. x = c) cs @ ?d" by simp
      then have "last cs = last ?d" using False by (metis last_appendR)
      moreover have "cs \<noteq> []" using False by auto
      ultimately show ?thesis
        using match False by (auto simp: replace_repeat_empty)
    qed
  qed
qed

lemma run_replace_repeat: "run c (replace_all exec_repeat s) \<le> run c s"
proof (induction "length s" arbitrary: s rule: less_induct)
  case less
  show ?case
  proof (cases s rule: replace_repeat_cases)
    case empty
    then show ?thesis by (simp add: run_Nil)
  next
    case (nomatch d ds)
    have "run c (replace_all exec_repeat ds) \<le> run c ds"
      using less[of ds] nomatch by simp
    then show ?thesis using nomatch by (simp add: run_Cons)
  next
    case (match d ds)
    show ?thesis
    proof (cases "d = c")
      case False
      then show ?thesis using match by (simp add: run_Cons)
    next
      case True
      let ?d = "dropWhile (\<lambda>x. x = c) ds"
      have "length ?d \<le> length ds" by (rule length_dropWhile_le)
      then have "run c (replace_all exec_repeat ?d) \<le> run c ?d"
        using less[of ?d] match by simp
      then have "run c (replace_all exec_repeat ?d) = 0"
        by (simp add: run_dropWhile)
      then show ?thesis using match True by (simp add: run_Cons)
    qed
  qed
qed

lemma stable_replace_repeat: "stable exec_repeat (replace_all exec_repeat s)"
proof (induction "length s" arbitrary: s rule: less_induct)
  case less
  show ?case
  proof (cases s rule: replace_repeat_cases)
    case empty
    then show ?thesis by (simp add: exec_repeat_def)
  next
    case (nomatch c cs)
    have IH: "stable exec_repeat (replace_all exec_repeat cs)"
      using less[of cs] nomatch by simp
    have "run c (replace_all exec_repeat cs) \<le> run c cs"
      by (rule run_replace_repeat)
    with nomatch have "exec_repeat (c # replace_all exec_repeat cs) = None"
      unfolding exec_repeat_None by auto
    with IH show ?thesis using nomatch by simp
  next
    case (match c cs)
    let ?d = "dropWhile (\<lambda>x. x = c) cs"
    have "length ?d \<le> length cs" by (rule length_dropWhile_le)
    then have IH: "stable exec_repeat (replace_all exec_repeat ?d)"
      using less[of ?d] match by simp
    have "run c (replace_all exec_repeat ?d) \<le> run c ?d"
      by (rule run_replace_repeat)
    then have r0: "run c (replace_all exec_repeat ?d) = 0"
      by (simp add: run_dropWhile)
    then have a: "exec_repeat (c # replace_all exec_repeat ?d) = None"
      unfolding exec_repeat_None by simp
    have b: "exec_repeat (c # c # replace_all exec_repeat ?d) = None"
      unfolding exec_repeat_None using r0 by (simp add: run_Cons)
    from IH a b show ?thesis using match by simp
  qed
qed

lemma collapsed_replace_repeat: "collapsed s \<Longrightarrow> collapsed (replace_all exec_repeat s)"
proof (induction "length s" arbitrary: s rule: less_induct)
  case less
  show ?case
  proof (cases s rule: replace_repeat_cases)
    case empty
    then show ?thesis by simp
  next
    case (nomatch c cs)
    with less.prems have ccs: "collapsed cs"
      and sp: "isWhitespace c \<longrightarrow> c = CHR '' '' \<and> (cs = [] \<or> \<not> isWhitespace (hd cs))"
      by simp_all
    have IH: "collapsed (replace_all exec_repeat cs)"
      using less.hyps[of cs] nomatch ccs by simp
    have "isWhitespace c \<longrightarrow> c = CHR '' '' \<and>
          (replace_all exec_repeat cs = [] \<or> \<not> isWhitespace (hd (replace_all exec_repeat cs)))"
      using sp by (cases "cs = []") (simp_all add: replace_repeat_empty replace_repeat_hd)
    with IH show ?thesis using nomatch by simp
  next
    case (match c cs)
    with less.prems have ccs: "collapsed cs"
      and sp: "isWhitespace c \<longrightarrow> c = CHR '' '' \<and> (cs = [] \<or> \<not> isWhitespace (hd cs))"
      by simp_all
    let ?d = "dropWhile (\<lambda>x. x = c) cs"
    from match obtain ds where cs: "cs = c # ds"
      by (cases cs) (auto simp: run_Cons run_Nil split: if_splits)
    with sp have nws: "\<not> isWhitespace c" by auto
    have "cs = takeWhile (\<lambda>x. x = c) cs @ ?d" by simp
    with ccs have "collapsed ?d" using collapsed_suffix by metis
    moreover have "length ?d \<le> length cs" by (rule length_dropWhile_le)
    ultimately have "collapsed (replace_all exec_repeat ?d)"
      using less.hyps[of ?d] match by simp
    with nws show ?thesis using match by simp
  qed
qed

lemma trimmed_replace_repeat: "trimmed s \<Longrightarrow> trimmed (replace_all exec_repeat s)"
  by (cases "s = []")
     (simp_all add: trimmed_def replace_repeat_Nil replace_repeat_empty replace_repeat_hd
        replace_repeat_last)

subsection \<open>The shape of normalized text\<close>

lemma normalizeText_shape:
  "\<exists>y. normalizeText x = collapse_repeats (collapse_whitespace y)"
proof (cases "x = []")
  case True
  have "collapse_repeats (collapse_whitespace []) = []"
    by (simp add: collapse_repeats_def collapse_whitespace_def trim_def replace_spaces_Nil
        replace_repeat_Nil)
  with True show ?thesis by (metis normalizeText_def)
next
  case False
  then show ?thesis unfolding normalizeText_def Let_def by (simp only: if_False) blast
qed

lemma normalized_invariants:
  "collapsed (normalizeText x) \<and> trimmed (normalizeText x) \<and>
   stable exec_repeat (normalizeText x)"
proof -
  obtain y where y: "normalizeText x = collapse_repeats (collapse_whitespace y)"
    using normalizeText_shape by blast
  have c: "collapsed (collapse_whitespace y)"
    unfolding collapse_whitespace_def by (intro collapsed_trim collapsed_replace_spaces)
  have t: "trimmed (collapse_whitespace y)"
    unfolding collapse_whitespace_def by (rule trimmed_trim)
  show ?thesis
    unfolding y collapse_repeats_def
    using c t by (simp add: collapsed_replace_repeat trimmed_replace_repeat
        stable_replace_repeat)
qed

text \<open>
  Claim C8. Rules 5 and 6 change nothing on the output of the normalizer: for every
  input \<open>x\<close>, the whitespace collapse leaves \<open>normalizeText x\<close> as it is, the repeat
  collapse leaves it as it is, and so does the one followed by the other.
\<close>
theorem normalized_text_is_fixed_by_rules_5_and_6:
  "collapse_whitespace (normalizeText x) = normalizeText x \<and>
   collapse_repeats (normalizeText x) = normalizeText x \<and>
   collapse_repeats (collapse_whitespace (normalizeText x)) = normalizeText x"
proof -
  have a: "collapse_whitespace (normalizeText x) = normalizeText x"
    using normalized_invariants[of x]
    by (simp add: collapse_whitespace_def collapsed_replace_spaces_id trimmed_trim_id)
  have b: "collapse_repeats (normalizeText x) = normalizeText x"
    using normalized_invariants[of x]
    by (simp add: collapse_repeats_def stable_replace_all)
  from a b show ?thesis by simp
qed

section \<open>Properties of the OCR loop\<close>

lemma ocr_loop_throw:
  "recognize config = Inl err \<Longrightarrow>
   ocr_loop recognize (config # rest) st =
     ocr_loop recognize rest
       (st\<lparr>calls := calls st @ [config], warnings := warnings st @ [name config]\<rparr>)"
  by (simp add: Let_def)

lemma ocr_loop_exit:
  "early_exit recognize config \<Longrightarrow>
   calls (ocr_loop recognize (config # rest) st) = calls st @ [config]"
  by (auto simp: early_exit_def Let_def split: sum.splits)

lemma ocr_loop_no_exit:
  "\<not> early_exit recognize config \<Longrightarrow>
   \<exists>st'. ocr_loop recognize (config # rest) st = ocr_loop recognize rest st' \<and>
         calls st' = calls st @ [config]"
  by (auto simp: early_exit_def Let_def split: sum.splits)

lemma ocr_loop_prefix:
  "\<forall>p\<in>set pre. \<not> early_exit recognize p \<Longrightarrow>
   \<exists>st'. ocr_loop recognize (pre @ rest) st = ocr_loop recognize rest st' \<and>
         calls st' = calls st @ pre"
proof (induction pre arbitrary: st)
  case Nil
  show ?case by (intro exI[of _ st]) simp
next
  case (Cons p pre)
  then have "\<not> early_exit recognize p" by simp
  from ocr_loop_no_exit[OF this, of "pre @ rest" st] obtain st1 where
    st1: "ocr_loop recognize (p # pre @ rest) st = ocr_loop recognize (pre @ rest) st1"
      "calls st1 = calls st @ [p]"
    by blast
  from Cons.IH[of st1] Cons.prems obtain st2 where
    st2: "ocr_loop recognize (pre @ rest) st1 = ocr_loop recognize rest st2"
      "calls st2 = calls st1 @ pre"
    by auto
  have "ocr_loop recognize ((p # pre) @ rest) st = ocr_loop recognize rest st2"
    using st1(1) st2(1) by (simp only: append_Cons)
  moreover have "calls st2 = calls st @ p # pre"
    using st1(2) st2(2) by simp
  ultimately show ?case by blast
qed

lemma ocr_loop_keeps_result:
  "bestResult st \<noteq> None \<Longrightarrow> bestResult (ocr_loop recognize configs st) \<noteq> None"
proof (induction configs arbitrary: st)
  case Nil
  then show ?case by simp
next
  case (Cons c configs)
  show ?case
  proof (cases "recognize c")
    case (Inl err)
    then show ?thesis using Cons.IH Cons.prems by (simp add: Let_def)
  next
    case (Inr data)
    then show ?thesis using Cons.IH Cons.prems by (auto simp: Let_def)
  qed
qed

lemma ocr_loop_None_iff:
  "bestResult st = None \<Longrightarrow>
   bestResult (ocr_loop recognize configs st) = None \<longleftrightarrow> (\<forall>c\<in>set configs. isl (recognize c))"
proof (induction configs arbitrary: st)
  case Nil
  then show ?case by simp
next
  case (Cons c configs)
  show ?case
  proof (cases "recognize c")
    case (Inl err)
    then show ?thesis using Cons.IH Cons.prems by (simp add: Let_def)
  next
    case (Inr data)
    let ?st2 = "st\<lparr>calls := calls st @ [c],
                  bestResult := Some \<lparr>ocr_text = normalizeText (ocr_text data),
                                       ocr_confidence = ocr_confidence data\<rparr>\<rparr>"
    have "bestResult (ocr_loop recognize configs ?st2) \<noteq> None"
      by (rule ocr_loop_keeps_result) simp
    then show ?thesis using Inr Cons.prems by (auto simp: Let_def)
  qed
qed

lemma ocr_loop_result_origin:
  "bestResult (ocr_loop recognize configs st) = Some r \<Longrightarrow>
   bestResult st = Some r \<or> from_recognition recognize configs r"
proof (induction configs arbitrary: st)
  case Nil
  then show ?case by simp
next
  case (Cons c configs)
  show ?case
  proof (cases "recognize c")
    case (Inl err)
    with Cons.prems have
      "bestResult (ocr_loop recognize configs
         (st\<lparr>calls := calls st @ [c], warnings := warnings st @ [name c]\<rparr>)) = Some r"
      by (simp add: Let_def)
    from Cons.IH[OF this] show ?thesis by (auto simp: from_recognition_def)
  next
    case (Inr data)
    let ?new = "\<lparr>ocr_text = normalizeText (ocr_text data), ocr_confidence = ocr_confidence data\<rparr>"
    have here: "from_recognition recognize (c # configs) ?new"
      using Inr by (simp add: from_recognition_def)
    define st1 where "st1 = st\<lparr>calls := calls st @ [c]\<rparr>"
    define better where "better =
      (case bestResult st1 of
         None \<Rightarrow> True
       | Some best \<Rightarrow> score (ocr_confidence data) (normalizeText (ocr_text data)) >
                      score (ocr_confidence best) (ocr_text best))"
    define st2 where "st2 = (if better then st1\<lparr>bestResult := Some ?new\<rparr> else st1)"
    have step: "ocr_loop recognize (c # configs) st =
        (if ocr_confidence data > 80 \<and> length (normalizeText (ocr_text data)) > 50 then st2
         else ocr_loop recognize configs st2)"
      using Inr by (simp add: Let_def st2_def better_def st1_def)
    have st2: "bestResult st2 = bestResult st \<or> bestResult st2 = Some ?new"
      by (simp add: st2_def st1_def)
    have res: "bestResult st2 = Some r \<or> bestResult (ocr_loop recognize configs st2) = Some r"
      using Cons.prems unfolding step by (simp split: if_splits)
    from res have "bestResult st2 = Some r \<or> from_recognition recognize configs r"
      using Cons.IH[of st2] by blast
    then show ?thesis
      using st2 here by (auto simp: from_recognition_def)
  qed
qed

lemma normalizeText_label:
  "normalizeText label_text = ''Straight Rye whisky - Net Contents 750 ml - ABC Distillery''"
  by code_simp

lemma label_exits: "early_exit scripted_recognizer autoDetection"
  by (simp add: early_exit_def scripted_recognizer_def autoDetection_def normalizeText_label)

lemma sparse_fails: "scripted_recognizer sparseText = Inl ''recognition failed''"
  by (simp add: scripted_recognizer_def sparseText_def)

text \<open>
  Claim C6. The recognizer is called for every configuration up to and including the
  first one whose result passes the early-exit test (confidence above 80 and normalized
  text longer than 50 characters), and for none after it. In particular, when the first
  configuration passes the test, the recognizer is called exactly once.
\<close>
theorem early_exit_skips_later_configs:
  "((\<forall>p\<in>set pre. \<not> early_exit recognize p) \<and> early_exit recognize config \<longrightarrow>
      calls (run_configs (pre @ config # post) recognize) = pre @ [config]) \<and>
   (early_exit recognize first \<longrightarrow>
      length (calls (run_configs (first # post) recognize)) = 1)"
proof -
  have general: "calls (run_configs (pre @ config # post) recognize) = pre @ [config]"
    if h: "(\<forall>p\<in>set pre. \<not> early_exit recognize p) \<and> early_exit recognize config"
    for pre config
  proof -
    let ?st0 = "\<lparr>bestResult = None, calls = [], warnings = []\<rparr>"
    from h ocr_loop_prefix[of pre recognize "config # post" ?st0] obtain st' where
      st': "ocr_loop recognize (pre @ config # post) ?st0 = ocr_loop recognize (config # post) st'"
        "calls st' = pre"
      by auto
    from h have "calls (ocr_loop recognize (config # post) st') = calls st' @ [config]"
      by (intro ocr_loop_exit) simp
    with st' show ?thesis by (simp add: run_configs_def)
  qed
  have "length (calls (run_configs (first # post) recognize)) = 1"
    if "early_exit recognize first"
    using general[of "[]" first] that by simp
  with general show ?thesis by blast
qed

theorem early_exit_skips_later_configs_witness:
  "\<not> early_exit scripted_recognizer sparseText \<and>
   early_exit scripted_recognizer autoDetection \<and>
   calls (run_configs ocrConfigs scripted_recognizer) = [sparseText, autoDetection] \<and>
   early_exit confident_recognizer sparseText \<and>
   length (calls (run_configs ocrConfigs confident_recognizer)) = 1"
proof -
  have h: "(\<forall>p\<in>set [sparseText]. \<not> early_exit scripted_recognizer p) \<and>
           early_exit scripted_recognizer autoDetection"
    using label_exits by (simp add: early_exit_def sparse_fails)
  have h1: "early_exit confident_recognizer sparseText"
    by (simp add: early_exit_def confident_recognizer_def normalizeText_label)
  note inst = early_exit_skips_later_configs[of "[sparseText]" scripted_recognizer autoDetection
      "[singleBlock, rawLine]"]
  from inst h
  have a: "calls (run_configs ([sparseText] @ autoDetection # [singleBlock, rawLine])
          scripted_recognizer) = [sparseText] @ [autoDetection]"
    by blast
  note inst1 = early_exit_skips_later_configs[of _ confident_recognizer _
      "[autoDetection, singleBlock, rawLine]" sparseText]
  from inst1 h1
  have b: "length (calls (run_configs (sparseText # [autoDetection, singleBlock, rawLine])
          confident_recognizer)) = 1"
    by blast
  from h h1 a b show ?thesis by (simp add: ocrConfigs_def)
qed

text \<open>
  Claim C7. When the recognizer throws for a configuration, the loop goes on with the
  remaining configurations, the best result untouched. \<open>processImage\<close> fails with
  \<open>AllOcrAttemptsFailed\<close> exactly when the recognizer throws for every configuration, and
  a result that it returns is always the normalized outcome of a recognition that
  succeeded.
\<close>
theorem recognition_errors_are_survived:
  "(recognize config = Inl err \<longrightarrow>
      ocr_loop recognize (config # rest) st =
        ocr_loop recognize rest
          (st\<lparr>calls := calls st @ [config], warnings := warnings st @ [name config]\<rparr>)) \<and>
   ((processImage configs recognize = Inl AllOcrAttemptsFailed) =
      (\<forall>c\<in>set configs. isl (recognize c))) \<and>
   (processImage configs recognize = Inr r \<longrightarrow> from_recognition recognize configs r)"
proof (intro conjI impI)
  assume "recognize config = Inl err"
  then show "ocr_loop recognize (config # rest) st =
        ocr_loop recognize rest
          (st\<lparr>calls := calls st @ [config], warnings := warnings st @ [name config]\<rparr>)"
    by (rule ocr_loop_throw)
next
  have "bestResult (run_configs configs recognize) = None \<longleftrightarrow>
        (\<forall>c\<in>set configs. isl (recognize c))"
    unfolding run_configs_def by (rule ocr_loop_None_iff) simp
  then show "(processImage configs recognize = Inl AllOcrAttemptsFailed) =
      (\<forall>c\<in>set configs. isl (recognize c))"
    by (auto simp: processImage_def split: option.splits)
next
  assume "processImage configs recognize = Inr r"
  then have "bestResult (run_configs configs recognize) = Some r"
    by (auto simp: processImage_def split: option.splits)
  then show "from_recognition recognize configs r"
    unfolding run_configs_def using ocr_loop_result_origin by fastforce
qed

theorem recognition_errors_are_survived_witness:
  "scripted_recognizer sparseText = Inl ''recognition failed'' \<and>
   ocr_loop scripted_recognizer ocrConfigs \<lparr>bestResult = None, calls = [], warnings = []\<rparr> =
     ocr_loop scripted_recognizer [autoDetection, singleBlock, rawLine]
       \<lparr>bestResult = None, calls = [sparseText], warnings = [''Sparse Text'']\<rparr> \<and>
   list_all (\<lambda>c. isl (failing_recognizer c)) ocrConfigs \<and>
   processImage ocrConfigs failing_recognizer = Inl AllOcrAttemptsFailed \<and>
   processImage ocrConfigs scripted_recognizer =
     Inr \<lparr>ocr_text = ''Straight Rye whisky - Net Contents 750 ml - ABC Distillery'',
          ocr_confidence = 92\<rparr> \<and>
   from_recognition scripted_recognizer ocrConfigs
     \<lparr>ocr_text = ''Straight Rye whisky - Net Contents 750 ml - ABC Distillery'',
      ocr_confidence = 92\<rparr>"
proof -
  let ?st0 = "\<lparr>bestResult = None, calls = [], warnings = []\<rparr>"
  let ?r = "\<lparr>ocr_text = ''Straight Rye whisky - Net Contents 750 ml - ABC Distillery'',
            ocr_confidence = 92\<rparr>"
  have auto_ok: "scripted_recognizer autoDetection =
      Inr \<lparr>ocr_text = label_text, ocr_confidence = 92\<rparr>"
    by (simp add: scripted_recognizer_def autoDetection_def)
  have a: "ocr_loop scripted_recognizer (sparseText # [autoDetection, singleBlock, rawLine]) ?st0 =
     ocr_loop scripted_recognizer [autoDetection, singleBlock, rawLine]
       (?st0\<lparr>calls := calls ?st0 @ [sparseText], warnings := warnings ?st0 @ [name sparseText]\<rparr>)"
    using recognition_errors_are_survived[of scripted_recognizer sparseText
        "''recognition failed''" "[autoDetection, singleBlock, rawLine]" ?st0] sparse_fails
    by blast
  have all_fail: "\<forall>c\<in>set ocrConfigs. isl (failing_recognizer c)"
    by (simp add: failing_recognizer_def)
  have b: "processImage ocrConfigs failing_recognizer = Inl AllOcrAttemptsFailed"
    using recognition_errors_are_survived[of failing_recognizer _ _ _ _ ocrConfigs] all_fail
    by blast
  have run: "processImage ocrConfigs scripted_recognizer = Inr ?r"
    by (simp add: processImage_def run_configs_def ocrConfigs_def Let_def sparse_fails auto_ok
        normalizeText_label)
  have c: "from_recognition scripted_recognizer ocrConfigs ?r"
    using recognition_errors_are_survived[of scripted_recognizer _ _ _ _ ocrConfigs ?r] run
    by blast
  from a b c run all_fail sparse_fails show ?thesis
    by (simp add: ocrConfigs_def sparseText_def list_all_iff)
qed

end
